theory Spec2Isabelle
  imports Main "HOL-Library.Sublist" "HOL-Library.Multiset"
begin

section \<open>Characters and strings of the log\<close>

text \<open>
  The source works on Python \<open>str\<close> values. A string is modelled as a \<open>char list\<close>,
  each \<open>char\<close> standing for one code point below 256; the character classes below are
  those of Python 3 for that range (\<open>str.isspace\<close>, the line boundaries of
  \<open>str.splitlines\<close>, the word characters of \<open>re\<close> and \<open>str.lower\<close>).
\<close>

definition code :: "char \<Rightarrow> nat" where
  "code c = of_char c"

definition newline :: char where
  "newline = CHR 0x0A"

definition is_space :: "char \<Rightarrow> bool" where
  \<comment> \<open>the characters removed by \<open>str.strip()\<close>\<close>
  "is_space c = (let n = code c in
     (9 \<le> n \<and> n \<le> 13) \<or> (28 \<le> n \<and> n \<le> 32) \<or> n = 133 \<or> n = 160)"

definition is_linebreak :: "char \<Rightarrow> bool" where
  \<comment> \<open>the line boundaries of \<open>str.splitlines()\<close>\<close>
  "is_linebreak c = (let n = code c in
     (10 \<le> n \<and> n \<le> 13) \<or> (28 \<le> n \<and> n \<le> 30) \<or> n = 133)"

definition is_word :: "char \<Rightarrow> bool" where
  \<comment> \<open>the class \<open>\w\<close> of a \<open>str\<close> pattern: alphanumeric or underscore\<close>
  "is_word c = (let n = code c in
     (48 \<le> n \<and> n \<le> 57) \<or> (65 \<le> n \<and> n \<le> 90) \<or> n = 95 \<or> (97 \<le> n \<and> n \<le> 122) \<or>
     n = 170 \<or> n = 178 \<or> n = 179 \<or> n = 181 \<or> n = 185 \<or> n = 186 \<or>
     (188 \<le> n \<and> n \<le> 190) \<or> (192 \<le> n \<and> n \<le> 214) \<or> (216 \<le> n \<and> n \<le> 246) \<or>
     (248 \<le> n \<and> n \<le> 255))"

definition lower :: "char \<Rightarrow> char" where
  \<comment> \<open>\<open>re.IGNORECASE\<close> compares characters by their lower-case form\<close>
  "lower c = (let n = code c in
     if (65 \<le> n \<and> n \<le> 90) \<or> (192 \<le> n \<and> n \<le> 222 \<and> n \<noteq> 215) then char_of (n + 32) else c)"

definition strip :: "string \<Rightarrow> string" where
  \<comment> \<open>\<open>s.strip()\<close>\<close>
  "strip s = rev (dropWhile is_space (rev (dropWhile is_space s)))"

definition lstrip_chars :: "char \<Rightarrow> string \<Rightarrow> string" where
  \<comment> \<open>\<open>s.lstrip(c)\<close> for a one-character argument\<close>
  "lstrip_chars c s = dropWhile (\<lambda>d. d = c) s"

fun splitlines_acc :: "string \<Rightarrow> string \<Rightarrow> string list" where
  "splitlines_acc acc [] = (if acc = [] then [] else [rev acc])"
| "splitlines_acc acc (c # cs) =
     (if c = CHR 0x0D then
        (case cs of
           [] \<Rightarrow> [rev acc]
         | d # ds \<Rightarrow> if d = CHR 0x0A then rev acc # splitlines_acc [] ds
                    else rev acc # splitlines_acc [] cs)
      else if is_linebreak c then rev acc # splitlines_acc [] cs
      else splitlines_acc (c # acc) cs)"

definition splitlines :: "string \<Rightarrow> string list" where
  \<comment> \<open>\<open>s.splitlines()\<close>: no empty last line, \<open>\r\n\<close> is one boundary\<close>
  "splitlines s = splitlines_acc [] s"

fun split_newline :: "string \<Rightarrow> string list" where
  \<comment> \<open>\<open>s.split('\n')\<close>: always at least one piece\<close>
  "split_newline [] = [[]]"
| "split_newline (c # cs) =
     (if c = newline then [] # split_newline cs
      else (case split_newline cs of
              [] \<Rightarrow> [[c]]
            | l # ls \<Rightarrow> (c # l) # ls))"

fun join_newline :: "string list \<Rightarrow> string" where
  \<comment> \<open>\<open>'\n'.join(xs)\<close>\<close>
  "join_newline [] = []"
| "join_newline [l] = l"
| "join_newline (l # ls) = l @ newline # join_newline ls"

fun starts_with :: "string \<Rightarrow> string \<Rightarrow> bool" where
  "starts_with [] s = True"
| "starts_with (p # ps) [] = False"
| "starts_with (p # ps) (c # cs) = (p = c \<and> starts_with ps cs)"

fun contains :: "string \<Rightarrow> string \<Rightarrow> bool" where
  \<comment> \<open>\<open>p in s\<close> for strings\<close>
  "contains p [] = (p = [])"
| "contains p (c # cs) = (starts_with p (c # cs) \<or> contains p cs)"

definition py_slice :: "'a list \<Rightarrow> int \<Rightarrow> int \<Rightarrow> 'a list" where
  \<comment> \<open>\<open>xs[a:b]\<close>: a negative index counts from the end, both are clipped to the list\<close>
  "py_slice xs a b =
     (let n = int (length xs);
          lo = (if a < 0 then max 0 (a + n) else min a n);
          hi = (if b < 0 then max 0 (b + n) else min b n)
      in take (nat (hi - lo)) (drop (nat lo) xs))"

section \<open>The word-delimited, case-insensitive search\<close>

text \<open>
  \<open>re.search(rf'\b{re.escape(p)}\b', line, re.IGNORECASE)\<close>: the escaped identifier is a
  literal, so the search succeeds when some position of the line carries the identifier,
  compared by lower-case forms, with a word boundary on each side. A word boundary is a
  position where exactly one of the two neighbours is a word character, the outside of the
  line counting as none.
\<close>

definition is_boundary :: "string \<Rightarrow> nat \<Rightarrow> bool" where
  "is_boundary s i =
     ((0 < i \<and> i \<le> length s \<and> is_word (s ! (i - 1))) \<noteq> (i < length s \<and> is_word (s ! i)))"

definition match_at :: "string \<Rightarrow> string \<Rightarrow> nat \<Rightarrow> bool" where
  "match_at p s i =
     (i + length p \<le> length s \<and>
      is_boundary s i \<and>
      map lower (take (length p) (drop i s)) = map lower p \<and>
      is_boundary s (i + length p))"

definition re_search_word :: "string \<Rightarrow> string \<Rightarrow> bool" where
  "re_search_word p s = list_ex (match_at p s) [0 ..< Suc (length s)]"

section \<open>Step specifications and their identifiers\<close>

text \<open>
  A step is a dictionary of the workflow file. The engine reads the keys \<open>name\<close>,
  \<open>run\<close>, \<open>uses\<close>, \<open>with\<close> and \<open>env\<close>; a key that is absent is \<open>None\<close>.
  \<open>step_other\<close> lists the remaining keys, which only the test \<open>step == {}\<close> can see.
\<close>

record step =
  step_name :: "string option"
  step_run :: "string option"
  step_uses :: "string option"
  step_with :: "(string \<times> string) list option"
  step_env :: "(string \<times> string) list option"
  step_other :: "string list"

definition unknown_step :: string where
  "unknown_step = ''Run Unknown Step''"

definition is_empty_step :: "step \<Rightarrow> bool" where
  \<comment> \<open>\<open>step == {}\<close>\<close>
  "is_empty_step st =
     (step_name st = None \<and> step_run st = None \<and> step_uses st = None \<and>
      step_with st = None \<and> step_env st = None \<and> step_other st = [])"

definition get_step_identifier :: "step \<Rightarrow> string" where
  "get_step_identifier st =
     (if is_empty_step st then unknown_step
      else (case step_run st of
              Some raw \<Rightarrow>
                (case splitlines raw of
                   first # rest \<Rightarrow> ''Run '' @ strip (lstrip_chars (CHR ''|'') first)
                 | [] \<Rightarrow> unknown_step)
            | None \<Rightarrow>
                (case step_uses st of
                   Some u \<Rightarrow> ''Run '' @ u
                 | None \<Rightarrow>
                     (case step_name st of
                        Some n \<Rightarrow> ''Run '' @ n
                      | None \<Rightarrow> unknown_step))))"

definition get_step_workflow_code :: "step \<Rightarrow> string" where
  "get_step_workflow_code st =
     (let render = map (\<lambda>(k, v). ''  '' @ k @ '': '' @ v);
          code_lines =
            (case step_run st of Some r \<Rightarrow> [''Run:'' @ newline # r] | None \<Rightarrow> []) @
            (case step_uses st of Some u \<Rightarrow> [''Uses: '' @ u] | None \<Rightarrow> []) @
            (case step_name st of Some n \<Rightarrow> [''Name: '' @ n] | None \<Rightarrow> []) @
            (case step_with st of Some w \<Rightarrow> ''With:'' # render w | None \<Rightarrow> []) @
            (case step_env st of Some e \<Rightarrow> ''Env:'' # render e | None \<Rightarrow> [])
      in join_newline code_lines)"

section \<open>The text normaliser\<close>

text \<open>
  \<open>re.sub(r'\x1b\[[0-9;]*[mK]', '', s)\<close> and \<open>re.sub(r'##\[[^\]]+\]', '', s)\<close>. Each
  matcher is given the text at a position and returns what follows the match there.
  In both expressions the repeated class and the character that must follow it are
  disjoint, so the longest run is the only candidate.
\<close>

definition is_csi_param :: "char \<Rightarrow> bool" where
  "is_csi_param c = ((48 \<le> code c \<and> code c \<le> 57) \<or> c = CHR '';'')"

definition match_ansi :: "string \<Rightarrow> string option" where
  "match_ansi s =
     (case s of
        e # b # r \<Rightarrow>
          if e = CHR 0x1B \<and> b = CHR ''['' then
            (case dropWhile is_csi_param r of
               f # r' \<Rightarrow> if f = CHR ''m'' \<or> f = CHR ''K'' then Some r' else None
             | [] \<Rightarrow> None)
          else None
      | _ \<Rightarrow> None)"

definition match_marker :: "string \<Rightarrow> string option" where
  "match_marker s =
     (case s of
        h1 # h2 # b # r \<Rightarrow>
          if h1 = CHR ''#'' \<and> h2 = CHR ''#'' \<and> b = CHR ''['' then
            (case dropWhile (\<lambda>c. c \<noteq> CHR '']'') r of
               f # r' \<Rightarrow> if takeWhile (\<lambda>c. c \<noteq> CHR '']'') r \<noteq> [] then Some r' else None
             | [] \<Rightarrow> None)
          else None
      | _ \<Rightarrow> None)"

function sub_ansi :: "string \<Rightarrow> string" where
  "sub_ansi [] = []"
| "sub_ansi (c # cs) =
     (case match_ansi (c # cs) of
        Some r \<Rightarrow> sub_ansi r
      | None \<Rightarrow> c # sub_ansi cs)"
  by pat_completeness auto
termination
proof (relation "measure length")
  show "wf (measure length)" by simp
next
  fix c :: char and cs r :: string
  assume "match_ansi (c # cs) = Some r"
  then obtain b t f where s: "cs = b # t" and d: "dropWhile is_csi_param t = f # r"
    by (auto simp: match_ansi_def split: list.splits if_splits)
  have "length (dropWhile is_csi_param t) \<le> length t"
    by (rule length_dropWhile_le)
  with s d show "(r, c # cs) \<in> measure length" by simp
next
  fix c :: char and cs :: string
  show "(cs, c # cs) \<in> measure length" by simp
qed

function sub_marker :: "string \<Rightarrow> string" where
  "sub_marker [] = []"
| "sub_marker (c # cs) =
     (case match_marker (c # cs) of
        Some r \<Rightarrow> sub_marker r
      | None \<Rightarrow> c # sub_marker cs)"
  by pat_completeness auto
termination
proof (relation "measure length")
  show "wf (measure length)" by simp
next
  fix c :: char and cs r :: string
  assume "match_marker (c # cs) = Some r"
  then obtain h b t f where s: "cs = h # b # t"
    and d: "dropWhile (\<lambda>c. c \<noteq> CHR '']'') t = f # r"
    by (auto simp: match_marker_def split: list.splits if_splits)
  have "length (dropWhile (\<lambda>c. c \<noteq> CHR '']'') t) \<le> length t"
    by (rule length_dropWhile_le)
  with s d show "(r, c # cs) \<in> measure length" by simp
next
  fix c :: char and cs :: string
  show "(cs, c # cs) \<in> measure length" by simp
qed

definition normalize_log :: "string \<Rightarrow> string list" where
  \<comment> \<open>\<open>log_lines\<close> of \<open>parse_log_by_steps\<close>\<close>
  "normalize_log log_content = split_newline (sub_marker (sub_ansi log_content))"

section \<open>The setup segment\<close>

definition setup_end_pattern :: "string \<Rightarrow> string" where
  "setup_end_pattern job_name = ''Complete job name: '' @ job_name"

text \<open>
  The first loop of \<open>parse_log_by_steps\<close>: \<open>setup_end_idx\<close> starts at 0 and is set only
  when a line holds the sentinel; the lines before that line are collected in \<open>setup_log\<close>.
  The result is the pair \<open>(setup_end_idx, setup_log)\<close>; \<open>i\<close> is the index of the first
  line of the list.
\<close>

fun scan_setup :: "string \<Rightarrow> nat \<Rightarrow> string list \<Rightarrow> nat \<times> string list" where
  "scan_setup pat i [] = (0, [])"
| "scan_setup pat i (line # rest) =
     (if contains pat line then (i, [])
      else (case scan_setup pat (Suc i) rest of (e, setup_log) \<Rightarrow> (e, line # setup_log)))"

section \<open>Patterns and the locator\<close>

record pattern_info =
  pi_step :: step
  pi_pattern :: string
  pi_found :: bool
  pi_start_idx :: int
  pi_end_idx :: int

definition make_pattern :: "step \<Rightarrow> pattern_info" where
  "make_pattern st =
     \<lparr>pi_step = st, pi_pattern = get_step_identifier st, pi_found = False,
      pi_start_idx = - 1, pi_end_idx = - 1\<rparr>"

text \<open>
  The inner loop over \<open>step_patterns\<close> for the line with index \<open>i\<close>: the first pattern
  that is not yet found and whose identifier the line carries is marked, and the loop
  breaks.
\<close>

fun assign_line :: "nat \<Rightarrow> string \<Rightarrow> pattern_info list \<Rightarrow> pattern_info list" where
  "assign_line i line [] = []"
| "assign_line i line (p # ps) =
     (if \<not> pi_found p \<and> re_search_word (pi_pattern p) line
      then p\<lparr>pi_found := True, pi_start_idx := int i\<rparr> # ps
      else p # assign_line i line ps)"

text \<open>The outer loop over the remaining lines, the first of which has index \<open>i\<close>.\<close>

fun locate :: "nat \<Rightarrow> string list \<Rightarrow> pattern_info list \<Rightarrow> pattern_info list" where
  "locate i [] ps = ps"
| "locate i (line # rest) ps = locate (Suc i) rest (assign_line i line ps)"

section \<open>Ranges and records\<close>

text \<open>
  An emitted record is a dictionary; a key the source does not put into it is \<open>None\<close>
  here (the setup record has no \<open>uses\<close>, \<open>run\<close>, \<open>with\<close>, \<open>env\<close>, \<open>pattern_matched\<close> and
  \<open>workflow_code\<close>; only a step that was not found has a \<open>note\<close>).
\<close>

record parsed_step =
  ps_name :: string
  ps_type :: string
  ps_uses :: "string option"
  ps_run :: "string option"
  ps_with :: "(string \<times> string) list option"
  ps_env :: "(string \<times> string) list option"
  ps_log_content :: string
  ps_start_line :: int
  ps_end_line :: int
  ps_pattern_matched :: "string option"
  ps_note :: "string option"
  ps_workflow_code :: "string option"

definition dict_get :: "'a option \<Rightarrow> 'a \<Rightarrow> 'a" where
  \<comment> \<open>\<open>d.get(key, default)\<close>\<close>
  "dict_get v d = (case v of Some x \<Rightarrow> x | None \<Rightarrow> d)"

definition setup_step :: "nat \<Rightarrow> string list \<Rightarrow> parsed_step" where
  "setup_step setup_end_idx setup_log =
     \<lparr>ps_name = ''Set up job'', ps_type = ''setup'', ps_uses = None, ps_run = None,
      ps_with = None, ps_env = None, ps_log_content = join_newline setup_log,
      ps_start_line = 0, ps_end_line = int setup_end_idx, ps_pattern_matched = None,
      ps_note = None, ps_workflow_code = None\<rparr>"

definition found_step_data :: "string list \<Rightarrow> pattern_info \<Rightarrow> int \<Rightarrow> parsed_step" where
  "found_step_data log_lines p end_idx =
     (let st = pi_step p; start_idx = pi_start_idx p
      in \<lparr>ps_name = dict_get (step_name st) (''Run '' @ dict_get (step_uses st) []),
          ps_type = ''action'', ps_uses = step_uses st, ps_run = step_run st,
          ps_with = Some (dict_get (step_with st) []),
          ps_env = Some (dict_get (step_env st) []),
          ps_log_content = join_newline (py_slice log_lines start_idx (end_idx + 1)),
          ps_start_line = start_idx, ps_end_line = end_idx,
          ps_pattern_matched = Some (pi_pattern p), ps_note = None,
          ps_workflow_code = Some (get_step_workflow_code st)\<rparr>)"

definition unfound_step_data :: "pattern_info \<Rightarrow> parsed_step" where
  "unfound_step_data p =
     (let st = pi_step p
      in \<lparr>ps_name = dict_get (step_name st) ''Unnamed Step'',
          ps_type = ''action'', ps_uses = step_uses st, ps_run = step_run st,
          ps_with = Some (dict_get (step_with st) []),
          ps_env = Some (dict_get (step_env st) []),
          ps_log_content = [], ps_start_line = - 1, ps_end_line = - 1,
          ps_pattern_matched = Some (pi_pattern p), ps_note = Some ''Step not found in log'',
          ps_workflow_code = Some (get_step_workflow_code st)\<rparr>)"

text \<open>
  The loop over the sorted \<open>found_patterns\<close>: the end of a step is the line before the
  start of the next found pattern, or the last line of the log. The loop also stores the
  end in the \<open>end_idx\<close> of the pattern, which nothing reads afterwards.
\<close>

fun found_records :: "string list \<Rightarrow> pattern_info list \<Rightarrow> parsed_step list" where
  "found_records log_lines [] = []"
| "found_records log_lines (p # ps) =
     (let end_idx = (case ps of
                       [] \<Rightarrow> int (length log_lines) - 1
                     | q # qs \<Rightarrow> pi_start_idx q - 1)
      in found_step_data log_lines p end_idx # found_records log_lines ps)"

section \<open>The segmentation engine\<close>

text \<open>
  \<open>parse_log_by_steps\<close>, without its debugging output. The steps are dictionaries
  (\<open>List[Dict]\<close>) whose \<open>name\<close>, \<open>run\<close> and \<open>uses\<close> are strings, so no step is
  \<open>None\<close> and the function has no failing path.
\<close>

definition step_patterns :: "string \<Rightarrow> step list \<Rightarrow> string \<Rightarrow> pattern_info list" where
  \<comment> \<open>\<open>step_patterns\<close> when the search loop has ended\<close>
  "step_patterns log_content job_steps job_name =
     (let log_lines = normalize_log log_content;
          setup_end_idx = fst (scan_setup (setup_end_pattern job_name) 0 log_lines)
      in locate (Suc setup_end_idx) (drop (Suc setup_end_idx) log_lines)
           (map make_pattern job_steps))"

definition found_patterns :: "string \<Rightarrow> step list \<Rightarrow> string \<Rightarrow> pattern_info list" where
  \<comment> \<open>\<open>found_patterns\<close> after \<open>sort\<close>, which is stable\<close>
  "found_patterns log_content job_steps job_name =
     sort_key pi_start_idx (filter pi_found (step_patterns log_content job_steps job_name))"

definition parse_log_by_steps :: "string \<Rightarrow> step list \<Rightarrow> string \<Rightarrow> parsed_step list" where
  "parse_log_by_steps log_content job_steps job_name =
     (let log_lines = normalize_log log_content;
          (setup_end_idx, setup_log) = scan_setup (setup_end_pattern job_name) 0 log_lines;
          patterns = step_patterns log_content job_steps job_name
      in setup_step setup_end_idx setup_log
         # found_records log_lines (found_patterns log_content job_steps job_name)
         @ map unfound_step_data (filter (\<lambda>p. \<not> pi_found p) patterns))"

section \<open>Reading the output\<close>

text \<open>
  The record of a located step is an action record without a \<open>note\<close>; the record of a
  step that was not located is an action record with one. \<open>found_starts\<close> lists the
  start indices of the patterns that are marked found, in list order.
\<close>

definition located_records :: "parsed_step list \<Rightarrow> parsed_step list" where
  "located_records out = filter (\<lambda>r. ps_type r = ''action'' \<and> ps_note r = None) out"

definition unlocated_records :: "parsed_step list \<Rightarrow> parsed_step list" where
  "unlocated_records out = filter (\<lambda>r. ps_type r = ''action'' \<and> ps_note r \<noteq> None) out"

definition found_starts :: "pattern_info list \<Rightarrow> int list" where
  "found_starts ps = map pi_start_idx (filter pi_found ps)"

definition setup_end_idx :: "string \<Rightarrow> string \<Rightarrow> nat" where
  \<comment> \<open>\<open>setup_end_idx\<close> when the first loop has ended\<close>
  "setup_end_idx log_content job_name =
     fst (scan_setup (setup_end_pattern job_name) 0 (normalize_log log_content))"

text \<open>
  The end index that the range loop gives to the pattern at position \<open>i\<close> of the sorted
  list \<open>ps\<close>.
\<close>

definition end_of :: "string list \<Rightarrow> pattern_info list \<Rightarrow> nat \<Rightarrow> int" where
  "end_of log_lines ps i =
     (if Suc i < length ps then pi_start_idx (ps ! Suc i) - 1 else int (length log_lines) - 1)"

text \<open>
  The fields of an action record that come from its step specification alone, whether the
  step was located or not, and the same fields computed from a specification and from
  a pattern.
\<close>

type_synonym source_fields =
  "string option \<times> string option \<times> (string \<times> string) list option \<times>
   (string \<times> string) list option \<times> string option \<times> string option"

definition record_source :: "parsed_step \<Rightarrow> source_fields" where
  "record_source r =
     (ps_uses r, ps_run r, ps_with r, ps_env r, ps_pattern_matched r, ps_workflow_code r)"

definition step_source :: "step \<Rightarrow> source_fields" where
  "step_source st =
     (step_uses st, step_run st, Some (dict_get (step_with st) []),
      Some (dict_get (step_env st) []), Some (get_step_identifier st),
      Some (get_step_workflow_code st))"

definition pattern_source :: "pattern_info \<Rightarrow> source_fields" where
  "pattern_source p =
     (step_uses (pi_step p), step_run (pi_step p), Some (dict_get (step_with (pi_step p)) []),
      Some (dict_get (step_env (pi_step p)) []), Some (pi_pattern p),
      Some (get_step_workflow_code (pi_step p)))"

section \<open>What the search has established after some lines\<close>

text \<open>
  The state of the pattern list \<open>ps\<close> when the lines with indices above \<open>k\<close> and below
  \<open>m\<close> of \<open>ls\<close> have been visited. A found pattern carries the index of a visited line
  that matches it; every earlier pattern matching that line had been found on a line
  before it, and every visited line before it that matches the pattern went to an earlier
  pattern. A pattern that is not found has the start index -1, and every visited line
  that matches it went to an earlier pattern.
\<close>

definition found_ok :: "string list \<Rightarrow> nat \<Rightarrow> nat \<Rightarrow> pattern_info list \<Rightarrow> nat \<Rightarrow> bool" where
  "found_ok ls k m ps j =
     (\<exists>i. pi_start_idx (ps ! j) = int i \<and> k < i \<and> i < m \<and>
          re_search_word (pi_pattern (ps ! j)) (ls ! i) \<and>
          (\<forall>j'<j. re_search_word (pi_pattern (ps ! j')) (ls ! i) \<longrightarrow>
                  pi_found (ps ! j') \<and> pi_start_idx (ps ! j') < int i) \<and>
          (\<forall>i'. k < i' \<and> i' < i \<and> re_search_word (pi_pattern (ps ! j)) (ls ! i') \<longrightarrow>
                (\<exists>j'<j. pi_found (ps ! j') \<and> pi_start_idx (ps ! j') = int i')))"

definition unfound_ok :: "string list \<Rightarrow> nat \<Rightarrow> nat \<Rightarrow> pattern_info list \<Rightarrow> nat \<Rightarrow> bool" where
  "unfound_ok ls k m ps j =
     (pi_start_idx (ps ! j) = - 1 \<and>
      (\<forall>i'. k < i' \<and> i' < m \<and> re_search_word (pi_pattern (ps ! j)) (ls ! i') \<longrightarrow>
            (\<exists>j'<j. pi_found (ps ! j') \<and> pi_start_idx (ps ! j') = int i')))"

definition locator_inv :: "string list \<Rightarrow> nat \<Rightarrow> nat \<Rightarrow> pattern_info list \<Rightarrow> bool" where
  "locator_inv ls k m ps =
     (\<forall>j<length ps. (pi_found (ps ! j) \<longrightarrow> found_ok ls k m ps j) \<and>
                      (\<not> pi_found (ps ! j) \<longrightarrow> unfound_ok ls k m ps j))"

section \<open>A sample job\<close>

text \<open>
  A log of six lines with the sentinel on the second line, and three steps, listed in an
  order that differs from the order of their headers in the log; the action step has
  no header there.
\<close>

definition sample_log :: string where
  "sample_log =
     ''Prepare runner'' @ newline # ''Complete job name: build'' @ newline #
     ''Run echo hi'' @ newline # ''hello'' @ newline # ''Run make'' @ newline # ''ok''"

definition run_step :: "string \<Rightarrow> step" where
  "run_step script =
     \<lparr>step_name = None, step_run = Some script, step_uses = None, step_with = None,
      step_env = None, step_other = []\<rparr>"

definition uses_step :: "string \<Rightarrow> step" where
  "uses_step action =
     \<lparr>step_name = None, step_run = None, step_uses = Some action, step_with = None,
      step_env = None, step_other = []\<rparr>"

definition sample_steps :: "step list" where
  "sample_steps = [run_step ''make'', uses_step ''actions/checkout@v4'', run_step ''echo hi'']"

section \<open>Basic facts about the helpers\<close>

lemma splitlines_acc_empty: "splitlines_acc acc s = [] \<longleftrightarrow> acc = [] \<and> s = []"
proof (induction s arbitrary: acc)
  case Nil
  show ?case by simp
next
  case (Cons c cs)
  have "splitlines_acc acc (c # cs) \<noteq> []"
  proof (cases "c = CHR 0x0D")
    case True
    then show ?thesis by (cases cs) simp_all
  next
    case False
    show ?thesis
    proof (cases "is_linebreak c")
      case True
      with False show ?thesis by simp
    next
      case nl: False
      have "splitlines_acc (c # acc) cs \<noteq> []" using Cons.IH [of "c # acc"] by simp
      with False nl show ?thesis by simp
    qed
  qed
  then show ?case by simp
qed

lemma splitlines_empty: "splitlines s = [] \<longleftrightarrow> s = []"
  by (simp add: splitlines_def splitlines_acc_empty)

lemma split_newline_not_Nil: "split_newline s \<noteq> []"
  by (induction s) (auto split: list.splits)

lemma join_newline_Cons: "ls \<noteq> [] \<Longrightarrow> join_newline (l # ls) = l @ newline # join_newline ls"
  by (cases ls) simp_all

lemma join_split_newline: "join_newline (split_newline s) = s"
proof (induction s)
  case Nil
  show ?case by simp
next
  case (Cons c cs)
  obtain l ls where sp: "split_newline cs = l # ls"
    using split_newline_not_Nil [of cs] by (cases "split_newline cs") auto
  show ?case
  proof (cases "c = newline")
    case True
    with Cons sp show ?thesis by (simp add: join_newline_Cons)
  next
    case False
    with Cons sp show ?thesis by (cases ls) auto
  qed
qed

lemma length_assign_line: "length (assign_line i line ps) = length ps"
  by (induction ps) auto

lemma length_locate: "length (locate i ls ps) = length ps"
  by (induction ls arbitrary: i ps) (auto simp: length_assign_line)

lemma length_found_records: "length (found_records log_lines ps) = length ps"
  by (induction ps) (auto simp: Let_def)

lemma length_step_patterns: "length (step_patterns log_content job_steps job_name) = length job_steps"
  by (simp add: step_patterns_def Let_def length_locate)

lemma length_found_unfound:
  "length (found_patterns log_content job_steps job_name) +
   length (filter (\<lambda>p. \<not> pi_found p) (step_patterns log_content job_steps job_name)) =
   length job_steps"
proof -
  let ?ps = "step_patterns log_content job_steps job_name"
  have "length (filter pi_found ?ps) + length (filter (\<lambda>p. \<not> pi_found p) ?ps) = length ?ps"
    by (rule sum_length_filter_compl)
  then show ?thesis by (simp add: found_patterns_def length_step_patterns)
qed

section \<open>The identifier of a step\<close>

text \<open>
  C5, as the code has it. The priority chain is run, then uses, then name, then the
  placeholder. When \<open>run\<close> is present and not the empty string, the identifier is
  \<open>Run\<close> and a space followed by the first line of the script, with the leading bars
  and then the surrounding whitespace removed; so a script whose first line is blank gives
  the identifier \<open>Run\<close> followed by a space and nothing else. When \<open>run\<close> is the
  empty string the identifier is the placeholder \<open>Run Unknown Step\<close>. Without \<open>run\<close>,
  a present \<open>uses\<close>, and without it a present \<open>name\<close>, is prefixed with \<open>Run\<close> and a
  space; with none of the three the placeholder is returned.
\<close>

theorem get_step_identifier_chain:
  "get_step_identifier st =
     (case step_run st of
        Some raw \<Rightarrow>
          if raw = [] then ''Run Unknown Step''
          else ''Run '' @ strip (lstrip_chars (CHR ''|'') (hd (splitlines raw)))
      | None \<Rightarrow>
          (case step_uses st of
             Some u \<Rightarrow> ''Run '' @ u
           | None \<Rightarrow>
               (case step_name st of
                  Some n \<Rightarrow> ''Run '' @ n
                | None \<Rightarrow> ''Run Unknown Step'')))"
proof (cases "step_run st")
  case None
  then show ?thesis
    by (auto simp: get_step_identifier_def is_empty_step_def unknown_step_def
        split: option.splits)
next
  case (Some raw)
  have ne: "\<not> is_empty_step st" using Some by (simp add: is_empty_step_def)
  show ?thesis
  proof (cases "raw = []")
    case True
    with Some ne show ?thesis
      by (simp add: get_step_identifier_def unknown_step_def splitlines_def)
  next
    case False
    then obtain first rest where "splitlines raw = first # rest"
      using splitlines_empty [of raw] by (cases "splitlines raw") auto
    with Some ne False show ?thesis
      by (simp add: get_step_identifier_def)
  qed
qed

text \<open>
  C5 as the specification words it fails: a script that consists of two spaces is present
  and blank, and its identifier is not the placeholder.
\<close>

theorem get_step_identifier_blank_run_counterexample:
  "get_step_identifier
     \<lparr>step_name = None, step_run = Some ''  '', step_uses = None, step_with = None,
      step_env = None, step_other = []\<rparr> = ''Run '' \<and>
   get_step_identifier
     \<lparr>step_name = None, step_run = Some ''  '', step_uses = None, step_with = None,
      step_env = None, step_other = []\<rparr> \<noteq> ''Run Unknown Step''"
proof -
  have "get_step_identifier
     \<lparr>step_name = None, step_run = Some ''  '', step_uses = None, step_with = None,
      step_env = None, step_other = []\<rparr> = ''Run ''"
    by code_simp
  then show ?thesis by simp
qed

section \<open>Word boundaries and the hyphen\<close>

lemma lower_run_test:
  "lower CHR ''R'' = CHR ''r''" "lower CHR ''u'' = CHR ''u''" "lower CHR ''n'' = CHR ''n''"
  "lower CHR '' '' = CHR '' ''" "lower CHR ''t'' = CHR ''t''" "lower CHR ''e'' = CHR ''e''"
  "lower CHR ''s'' = CHR ''s''"
  by code_simp+

lemma is_word_run_test: "is_word CHR ''R''" "is_word CHR ''t''"
  by (simp_all add: is_word_def code_def)

lemma upt_14: "[0..<Suc 13] = [0, 1, 2, 3, 4, 5, 6, 7, 8, 9, 10, 11, 12, 13]"
  by (simp add: upt_rec)

text \<open>
  C4, as the code has it. An occurrence of \<open>Run test\<close> that is directly followed by a
  word character (a letter, a digit or an underscore) is no match of the identifier
  \<open>Run test\<close>, wherever in the line it stands. On a line that consists of \<open>Run test\<close>,
  one more character and \<open>unit\<close>, the search for the identifier succeeds exactly when
  that character is not a word character; a hyphen is none, so it does not prevent the
  match.
\<close>

theorem run_test_boundary:
  "(is_word c \<longrightarrow>
      \<not> match_at ''Run test'' (pre @ ''Run test'' @ c # post) (length pre)) \<and>
   (re_search_word ''Run test'' (''Run test'' @ d # ''unit'') \<longleftrightarrow> \<not> is_word d)"
proof
  show "is_word c \<longrightarrow> \<not> match_at ''Run test'' (pre @ ''Run test'' @ c # post) (length pre)"
    by (simp add: match_at_def is_boundary_def nth_append is_word_run_test)
next
  show "re_search_word ''Run test'' (''Run test'' @ d # ''unit'') \<longleftrightarrow> \<not> is_word d"
    by (simp add: re_search_word_def upt_14 match_at_def is_boundary_def lower_run_test
        is_word_run_test)
qed

theorem run_test_boundary_witness:
  "is_word CHR ''s'' \<and> \<not> match_at ''Run test'' ''Run tests'' 0"
proof -
  have w: "is_word CHR ''s''" by (simp add: is_word_def code_def)
  from run_test_boundary [of "CHR ''s''" "[]" "[]"] w
  have "\<not> match_at ''Run test'' ([] @ ''Run test'' @ CHR ''s'' # []) (length ([] :: string))"
    by blast
  then have "\<not> match_at ''Run test'' ''Run tests'' 0" by simp
  with w show ?thesis by (rule conjI)
qed

text \<open>
  C4 as the specification words it fails: the identifier \<open>Run test\<close> is found on the
  line \<open>Run test-unit\<close>, and the engine gives that line to the step \<open>test\<close> and reports
  the step \<open>test-unit\<close> as not found.
\<close>

theorem run_test_hyphen_counterexample:
  "re_search_word ''Run test'' ''Run test-unit'' \<and>
   map ps_start_line
     (parse_log_by_steps (''Complete job name: build'' @ newline # ''Run test-unit'')
        [\<lparr>step_name = None, step_run = Some ''test'', step_uses = None, step_with = None,
          step_env = None, step_other = []\<rparr>,
         \<lparr>step_name = None, step_run = Some ''test-unit'', step_uses = None,
          step_with = None, step_env = None, step_other = []\<rparr>]
        ''build'') = [0, 1, - 1]"
proof -
  have m: "re_search_word ''Run test'' ''Run test-unit''"
    by code_simp
  have e: "map ps_start_line
     (parse_log_by_steps (''Complete job name: build'' @ newline # ''Run test-unit'')
        [\<lparr>step_name = None, step_run = Some ''test'', step_uses = None, step_with = None,
          step_env = None, step_other = []\<rparr>,
         \<lparr>step_name = None, step_run = Some ''test-unit'', step_uses = None,
          step_with = None, step_env = None, step_other = []\<rparr>]
        ''build'') = [0, 1, - 1]"
    by code_simp
  from m e show ?thesis by (rule conjI)
qed

section \<open>The locator keeps the pattern list in shape\<close>

lemma assign_line_step: "map pi_step (assign_line i line ps) = map pi_step ps"
  by (induction ps) auto

lemma assign_line_pattern: "map pi_pattern (assign_line i line ps) = map pi_pattern ps"
  by (induction ps) auto

lemma locate_step: "map pi_step (locate i ls ps) = map pi_step ps"
  by (induction ls arbitrary: i ps) (auto simp: assign_line_step)

lemma locate_pattern: "map pi_pattern (locate i ls ps) = map pi_pattern ps"
  by (induction ls arbitrary: i ps) (auto simp: assign_line_pattern)

lemma step_patterns_step: "map pi_step (step_patterns log_content job_steps job_name) = job_steps"
  by (simp add: step_patterns_def Let_def locate_step comp_def make_pattern_def)

lemma step_patterns_pattern:
  "map pi_pattern (step_patterns log_content job_steps job_name) =
     map get_step_identifier job_steps"
  by (simp add: step_patterns_def Let_def locate_pattern comp_def make_pattern_def)

subsection \<open>Start indices of found patterns\<close>

lemma found_starts_Cons:
  "found_starts (p # ps) = (if pi_found p then pi_start_idx p # found_starts ps else found_starts ps)"
  by (simp add: found_starts_def)

lemma found_starts_make: "found_starts (map make_pattern sts) = []"
  by (induction sts) (simp_all add: found_starts_def make_pattern_def)

lemma assign_line_starts_subset:
  "set (found_starts (assign_line i line ps)) \<subseteq> insert (int i) (set (found_starts ps))"
  by (induction ps) (auto simp: found_starts_Cons)

lemma assign_line_starts_mono:
  "set (found_starts ps) \<subseteq> set (found_starts (assign_line i line ps))"
  by (induction ps) (auto simp: found_starts_Cons)

lemma assign_line_starts_distinct:
  "distinct (found_starts ps) \<Longrightarrow> int i \<notin> set (found_starts ps) \<Longrightarrow>
   distinct (found_starts (assign_line i line ps))"
proof (induction ps)
  case Nil
  show ?case by (simp add: found_starts_def)
next
  case (Cons p ps)
  show ?case
  proof (cases "\<not> pi_found p \<and> re_search_word (pi_pattern p) line")
    case True
    with Cons.prems show ?thesis by (simp add: found_starts_Cons)
  next
    case False
    from Cons.prems have d: "distinct (found_starts ps)" and n: "int i \<notin> set (found_starts ps)"
      by (auto simp: found_starts_Cons split: if_splits)
    have ih: "distinct (found_starts (assign_line i line ps))" using Cons.IH d n .
    show ?thesis
    proof (cases "pi_found p")
      case f: True
      from Cons.prems f have "pi_start_idx p \<notin> set (found_starts ps)" "pi_start_idx p \<noteq> int i"
        by (auto simp: found_starts_Cons)
      with assign_line_starts_subset [of i line ps]
      have "pi_start_idx p \<notin> set (found_starts (assign_line i line ps))" by auto
      with False f ih show ?thesis by (simp add: found_starts_Cons)
    next
      case nf: False
      with False ih show ?thesis by (simp add: found_starts_Cons)
    qed
  qed
qed

lemma locate_starts:
  "distinct (found_starts ps) \<Longrightarrow> \<forall>s\<in>set (found_starts ps). s < int i \<Longrightarrow>
   distinct (found_starts (locate i ls ps)) \<and>
   (\<forall>s\<in>set (found_starts (locate i ls ps)).
      s < int (i + length ls) \<and> (s \<in> set (found_starts ps) \<or> int i \<le> s))"
proof (induction ls arbitrary: i ps)
  case Nil
  then show ?case by simp
next
  case (Cons l ls)
  let ?qs = "assign_line i l ps"
  have ni: "int i \<notin> set (found_starts ps)" using Cons.prems(2) by auto
  have d: "distinct (found_starts ?qs)"
    using assign_line_starts_distinct [OF Cons.prems(1) ni] .
  have b: "\<forall>s\<in>set (found_starts ?qs). s < int (Suc i)"
    using assign_line_starts_subset [of i l ps] Cons.prems(2) by fastforce
  have ih: "distinct (found_starts (locate (Suc i) ls ?qs)) \<and>
      (\<forall>s\<in>set (found_starts (locate (Suc i) ls ?qs)).
          s < int (Suc i + length ls) \<and> (s \<in> set (found_starts ?qs) \<or> int (Suc i) \<le> s))"
    using Cons.IH [OF d b] .
  have "\<forall>s\<in>set (found_starts (locate (Suc i) ls ?qs)).
      s < int (i + length (l # ls)) \<and> (s \<in> set (found_starts ps) \<or> int i \<le> s)"
  proof
    fix s assume "s \<in> set (found_starts (locate (Suc i) ls ?qs))"
    with ih have 1: "s < int (Suc i + length ls)"
      and 2: "s \<in> set (found_starts ?qs) \<or> int (Suc i) \<le> s" by auto
    from 2 assign_line_starts_subset [of i l ps]
    have "s \<in> set (found_starts ps) \<or> int i \<le> s" by auto
    with 1 show "s < int (i + length (l # ls)) \<and> (s \<in> set (found_starts ps) \<or> int i \<le> s)"
      by simp
  qed
  with ih show ?case by simp
qed

subsection \<open>The setup scan\<close>

lemma scan_setup_absent:
  "\<forall>l\<in>set ls. \<not> contains pat l \<Longrightarrow> scan_setup pat i ls = (0, ls)"
  by (induction ls arbitrary: i) auto

lemma scan_setup_first:
  "k < length ls \<Longrightarrow> contains pat (ls ! k) \<Longrightarrow> \<forall>j<k. \<not> contains pat (ls ! j) \<Longrightarrow>
   scan_setup pat i ls = (i + k, take k ls)"
proof (induction ls arbitrary: i k)
  case Nil
  then show ?case by simp
next
  case (Cons l ls)
  show ?case
  proof (cases k)
    case 0
    with Cons.prems show ?thesis by simp
  next
    case (Suc k')
    from Cons.prems Suc have nl: "\<not> contains pat l" by auto
    from Cons.prems Suc have "k' < length ls" "contains pat (ls ! k')"
      "\<forall>j<k'. \<not> contains pat (ls ! j)" by auto
    then have "scan_setup pat (Suc i) ls = (Suc i + k', take k' ls)" by (rule Cons.IH)
    with nl Suc show ?thesis by simp
  qed
qed

lemma scan_setup_zero_or_below:
  "fst (scan_setup pat i ls) = 0 \<or> fst (scan_setup pat i ls) < i + length ls"
proof (induction ls arbitrary: i)
  case Nil
  show ?case by simp
next
  case (Cons l ls)
  show ?case
  proof (cases "contains pat l")
    case True
    then show ?thesis by simp
  next
    case False
    then have "fst (scan_setup pat i (l # ls)) = fst (scan_setup pat (Suc i) ls)"
      by (simp split: prod.splits)
    with Cons.IH [of "Suc i"] show ?thesis by auto
  qed
qed

lemma scan_setup_bound: "ls \<noteq> [] \<Longrightarrow> fst (scan_setup pat i ls) < i + length ls"
  using scan_setup_zero_or_below [of pat i ls] by (cases ls) auto

lemma normalize_log_not_Nil: "normalize_log log_content \<noteq> []"
  by (simp add: normalize_log_def split_newline_not_Nil)

lemma setup_end_idx_bound: "setup_end_idx log_content job_name < length (normalize_log log_content)"
  using scan_setup_bound [OF normalize_log_not_Nil, of _ 0 log_content]
  by (simp add: setup_end_idx_def)

lemma step_patterns_starts:
  "distinct (found_starts (step_patterns log_content job_steps job_name)) \<and>
   (\<forall>s\<in>set (found_starts (step_patterns log_content job_steps job_name)).
      int (setup_end_idx log_content job_name) < s \<and> s < int (length (normalize_log log_content)))"
proof -
  let ?lines = "normalize_log log_content"
  let ?k = "setup_end_idx log_content job_name"
  have sp: "step_patterns log_content job_steps job_name =
      locate (Suc ?k) (drop (Suc ?k) ?lines) (map make_pattern job_steps)"
    by (simp add: step_patterns_def setup_end_idx_def Let_def)
  have len: "Suc ?k + length (drop (Suc ?k) ?lines) = length ?lines"
    using setup_end_idx_bound [of log_content job_name] by simp
  have "distinct (found_starts (map make_pattern job_steps))"
    "\<forall>s\<in>set (found_starts (map make_pattern job_steps)). s < int (Suc ?k)"
    by (simp_all add: found_starts_make)
  from locate_starts [OF this, of "drop (Suc ?k) ?lines"] len sp
  show ?thesis by (auto simp: found_starts_make)
qed

subsection \<open>The sorted found patterns and their records\<close>

lemma map_insort_key: "map f (insort_key f x xs) = insort (f x) (map f xs)"
  by (induction xs) auto

lemma map_sort_key: "map f (sort_key f xs) = sort (map f xs)"
  by (induction xs) (simp_all add: map_insort_key)

lemma found_patterns_starts:
  "map pi_start_idx (found_patterns log_content job_steps job_name) =
     sort (found_starts (step_patterns log_content job_steps job_name))"
  by (simp add: found_patterns_def found_starts_def map_sort_key)

lemma found_patterns_strict:
  "sorted_wrt (<) (map pi_start_idx (found_patterns log_content job_steps job_name))"
  using step_patterns_starts [of log_content job_steps job_name]
  by (simp add: found_patterns_starts strict_sorted_iff)

lemma found_patterns_range:
  "p \<in> set (found_patterns log_content job_steps job_name) \<Longrightarrow>
   int (setup_end_idx log_content job_name) < pi_start_idx p \<and>
   pi_start_idx p < int (length (normalize_log log_content))"
proof -
  assume "p \<in> set (found_patterns log_content job_steps job_name)"
  then have "pi_start_idx p \<in> set (map pi_start_idx (found_patterns log_content job_steps job_name))"
    by simp
  then have "pi_start_idx p \<in> set (found_starts (step_patterns log_content job_steps job_name))"
    by (simp add: found_patterns_starts)
  with step_patterns_starts [of log_content job_steps job_name] show ?thesis by blast
qed

lemma found_patterns_set:
  "set (found_patterns log_content job_steps job_name) =
     {p \<in> set (step_patterns log_content job_steps job_name). pi_found p}"
  by (auto simp: found_patterns_def)

lemma found_records_nth:
  "i < length ps \<Longrightarrow>
   found_records log_lines ps ! i = found_step_data log_lines (ps ! i) (end_of log_lines ps i)"
proof (induction ps arbitrary: i)
  case Nil
  then show ?case by simp
next
  case (Cons p ps)
  show ?case
  proof (cases i)
    case 0
    then show ?thesis by (cases ps) (simp_all add: end_of_def)
  next
    case (Suc j)
    with Cons.prems have "j < length ps" by simp
    from Cons.IH [OF this] Suc show ?thesis by (simp add: end_of_def)
  qed
qed

lemma found_records_start:
  "map ps_start_line (found_records log_lines ps) = map pi_start_idx ps"
  by (induction ps) (simp_all add: Let_def found_step_data_def)

lemma found_records_type: "r \<in> set (found_records log_lines ps) \<Longrightarrow> ps_type r = ''action''"
  by (induction ps) (auto simp: Let_def found_step_data_def)

lemma found_records_note: "r \<in> set (found_records log_lines ps) \<Longrightarrow> ps_note r = None"
  by (induction ps) (auto simp: Let_def found_step_data_def)

lemma unfound_type: "ps_type (unfound_step_data p) = ''action''"
  by (simp add: unfound_step_data_def Let_def)

lemma unfound_note: "ps_note (unfound_step_data p) = Some ''Step not found in log''"
  by (simp add: unfound_step_data_def Let_def)

lemma setup_type: "ps_type (setup_step k ls) = ''setup''"
  by (simp add: setup_step_def)

subsection \<open>The shape of the output\<close>

lemma parse_shape:
  "parse_log_by_steps log_content job_steps job_name =
     setup_step (setup_end_idx log_content job_name)
       (snd (scan_setup (setup_end_pattern job_name) 0 (normalize_log log_content)))
     # found_records (normalize_log log_content) (found_patterns log_content job_steps job_name)
     @ map unfound_step_data
         (filter (\<lambda>p. \<not> pi_found p) (step_patterns log_content job_steps job_name))"
  by (simp add: parse_log_by_steps_def setup_end_idx_def Let_def split: prod.splits)

lemma located_of_parse:
  "located_records (parse_log_by_steps log_content job_steps job_name) =
     found_records (normalize_log log_content) (found_patterns log_content job_steps job_name)"
proof -
  let ?P = "\<lambda>r. ps_type r = ''action'' \<and> ps_note r = None"
  have 1: "filter ?P (found_records (normalize_log log_content)
             (found_patterns log_content job_steps job_name)) =
           found_records (normalize_log log_content)
             (found_patterns log_content job_steps job_name)"
    by (rule filter_True) (simp add: found_records_type found_records_note)
  have 2: "filter ?P (map unfound_step_data
             (filter (\<lambda>p. \<not> pi_found p) (step_patterns log_content job_steps job_name))) = []"
    by (rule filter_False) (auto simp: unfound_note)
  have 3: "\<not> ?P (setup_step (setup_end_idx log_content job_name)
       (snd (scan_setup (setup_end_pattern job_name) 0 (normalize_log log_content))))"
    by (simp add: setup_type)
  show ?thesis
    unfolding located_records_def parse_shape filter.simps filter_append 1 2 using 3 by simp
qed

lemma unlocated_of_parse:
  "unlocated_records (parse_log_by_steps log_content job_steps job_name) =
     map unfound_step_data
       (filter (\<lambda>p. \<not> pi_found p) (step_patterns log_content job_steps job_name))"
proof -
  let ?P = "\<lambda>r. ps_type r = ''action'' \<and> ps_note r \<noteq> None"
  have 1: "filter ?P (found_records (normalize_log log_content)
             (found_patterns log_content job_steps job_name)) = []"
    by (rule filter_False) (simp add: found_records_note)
  have 2: "filter ?P (map unfound_step_data
             (filter (\<lambda>p. \<not> pi_found p) (step_patterns log_content job_steps job_name))) =
           map unfound_step_data
             (filter (\<lambda>p. \<not> pi_found p) (step_patterns log_content job_steps job_name))"
    by (rule filter_True) (auto simp: unfound_note unfound_type)
  have 3: "\<not> ?P (setup_step (setup_end_idx log_content job_name)
       (snd (scan_setup (setup_end_pattern job_name) 0 (normalize_log log_content))))"
    by (simp add: setup_type)
  show ?thesis
    unfolding unlocated_records_def parse_shape filter.simps filter_append 1 2 using 3 by simp
qed

lemma located_starts:
  "map ps_start_line (located_records (parse_log_by_steps log_content job_steps job_name)) =
     map pi_start_idx (found_patterns log_content job_steps job_name)"
  by (simp add: located_of_parse found_records_start)

lemma located_sort_id:
  "sort_key ps_start_line (located_records (parse_log_by_steps log_content job_steps job_name)) =
     located_records (parse_log_by_steps log_content job_steps job_name)"
proof (rule sort_key_id_if_sorted)
  have "sorted_wrt (<) (map ps_start_line
      (located_records (parse_log_by_steps log_content job_steps job_name)))"
    by (simp add: located_starts found_patterns_strict)
  then show "sorted (map ps_start_line
      (located_records (parse_log_by_steps log_content job_steps job_name)))"
    by (rule strict_sorted_imp_sorted)
qed

subsection \<open>Ranges of the located records\<close>

lemma py_slice_inside:
  "0 \<le> a \<Longrightarrow> a \<le> b \<Longrightarrow> b \<le> int (length xs) \<Longrightarrow>
   py_slice xs a b = take (nat (b - a)) (drop (nat a) xs)"
  by (simp add: py_slice_def Let_def min_def)

lemma found_patterns_end_of:
  assumes "i < length (found_patterns log_content job_steps job_name)"
  shows "pi_start_idx (found_patterns log_content job_steps job_name ! i)
           \<le> end_of (normalize_log log_content) (found_patterns log_content job_steps job_name) i
         \<and> end_of (normalize_log log_content) (found_patterns log_content job_steps job_name) i
           < int (length (normalize_log log_content))"
proof -
  let ?fps = "found_patterns log_content job_steps job_name"
  let ?n = "int (length (normalize_log log_content))"
  show ?thesis
  proof (cases "Suc i < length ?fps")
    case True
    have "map pi_start_idx ?fps ! i < map pi_start_idx ?fps ! Suc i"
      using found_patterns_strict [of log_content job_steps job_name] True
      by (simp add: sorted_wrt_nth_less del: nth_map)
    with True have lt: "pi_start_idx (?fps ! i) < pi_start_idx (?fps ! Suc i)" by simp
    have "?fps ! Suc i \<in> set ?fps" using True by simp
    from found_patterns_range [OF this] have "pi_start_idx (?fps ! Suc i) < ?n" by simp
    with lt True show ?thesis by (simp add: end_of_def)
  next
    case False
    have "?fps ! i \<in> set ?fps" using assms by simp
    from found_patterns_range [OF this] have "pi_start_idx (?fps ! i) < ?n" by simp
    with False show ?thesis by (simp add: end_of_def)
  qed
qed

lemma located_record_range:
  assumes "r \<in> set (located_records (parse_log_by_steps log_content job_steps job_name))"
  shows "int (setup_end_idx log_content job_name) < ps_start_line r \<and>
         ps_start_line r \<le> ps_end_line r \<and>
         ps_end_line r < int (length (normalize_log log_content)) \<and>
         ps_log_content r =
           join_newline (take (nat (ps_end_line r - ps_start_line r + 1))
                           (drop (nat (ps_start_line r)) (normalize_log log_content)))"
proof -
  let ?fps = "found_patterns log_content job_steps job_name"
  let ?lines = "normalize_log log_content"
  from assms have "r \<in> set (found_records ?lines ?fps)" by (simp add: located_of_parse)
  then obtain i where i: "i < length ?fps" and r: "r = found_records ?lines ?fps ! i"
    by (auto simp: in_set_conv_nth length_found_records)
  from r i have r': "r = found_step_data ?lines (?fps ! i) (end_of ?lines ?fps i)"
    by (simp add: found_records_nth)
  have "?fps ! i \<in> set ?fps" using i by simp
  from found_patterns_range [OF this]
  have lo: "int (setup_end_idx log_content job_name) < pi_start_idx (?fps ! i)" by simp
  from found_patterns_end_of [OF i]
  have le: "pi_start_idx (?fps ! i) \<le> end_of ?lines ?fps i"
    and hi: "end_of ?lines ?fps i < int (length ?lines)" by simp_all
  have st: "ps_start_line r = pi_start_idx (?fps ! i)"
    and en: "ps_end_line r = end_of ?lines ?fps i"
    and co: "ps_log_content r =
      join_newline (py_slice ?lines (pi_start_idx (?fps ! i)) (end_of ?lines ?fps i + 1))"
    by (simp_all add: r' found_step_data_def Let_def)
  have "py_slice ?lines (pi_start_idx (?fps ! i)) (end_of ?lines ?fps i + 1) =
      take (nat (end_of ?lines ?fps i + 1 - pi_start_idx (?fps ! i)))
        (drop (nat (pi_start_idx (?fps ! i))) ?lines)"
    using lo le hi by (intro py_slice_inside) auto
  with co have "ps_log_content r =
      join_newline (take (nat (end_of ?lines ?fps i - pi_start_idx (?fps ! i) + 1))
        (drop (nat (pi_start_idx (?fps ! i))) ?lines))"
    by (simp add: algebra_simps)
  with lo le hi st en show ?thesis by simp
qed

lemma map_const_replicate: "\<forall>x\<in>set xs. f x = c \<Longrightarrow> map f xs = replicate (length xs) c"
  by (induction xs) auto

section \<open>The number of records\<close>

lemma found_records_source:
  "map record_source (found_records log_lines qs) = map pattern_source qs"
  by (induction qs) (simp_all add: Let_def found_step_data_def record_source_def pattern_source_def)

lemma unfound_source: "record_source (unfound_step_data p) = pattern_source p"
  by (simp add: unfound_step_data_def Let_def record_source_def pattern_source_def)

lemma step_patterns_identifier:
  assumes "p \<in> set (step_patterns log_content job_steps job_name)"
  shows "pi_pattern p = get_step_identifier (pi_step p)"
proof -
  let ?ps = "step_patterns log_content job_steps job_name"
  from assms obtain j where j: "j < length ?ps" and p: "p = ?ps ! j"
    by (auto simp: in_set_conv_nth)
  have "pi_pattern (?ps ! j) = map pi_pattern ?ps ! j" using j by simp
  also have "\<dots> = get_step_identifier (job_steps ! j)"
    using j by (simp only: step_patterns_pattern) (simp add: length_step_patterns)
  also have "job_steps ! j = map pi_step ?ps ! j" by (simp only: step_patterns_step)
  also have "\<dots> = pi_step (?ps ! j)" using j by simp
  finally show ?thesis by (simp add: p)
qed

lemma step_patterns_source:
  "map pattern_source (step_patterns log_content job_steps job_name) =
     map step_source job_steps"
proof -
  let ?ps = "step_patterns log_content job_steps job_name"
  have "map pattern_source ?ps = map (\<lambda>p. step_source (pi_step p)) ?ps"
    by (rule map_cong [OF refl])
      (simp add: pattern_source_def step_source_def step_patterns_identifier)
  also have "\<dots> = map step_source (map pi_step ?ps)" by (simp add: comp_def)
  finally show ?thesis by (simp only: step_patterns_step)
qed

lemma tl_parse:
  "tl (parse_log_by_steps log_content job_steps job_name) =
     found_records (normalize_log log_content) (found_patterns log_content job_steps job_name)
     @ map unfound_step_data
         (filter (\<lambda>p. \<not> pi_found p) (step_patterns log_content job_steps job_name))"
  by (simp only: parse_shape list.sel)

text \<open>
  C1. For every log, every list of \<open>N\<close> step specifications and every job name,
  \<open>parse_log_by_steps\<close> returns exactly \<open>N + 1\<close> records. The first is the setup
  record; the other \<open>N\<close> are action records, each of them either the record of a located
  step or the record of a step that was not located, and they correspond one to one to the
  specifications: the fields that a record takes from its specification (\<open>uses\<close>,
  \<open>run\<close>, \<open>with\<close>, \<open>env\<close>, the identifier and the workflow code), collected over the
  action records, are those of the input specifications, each as often as it occurs in the
  input.
\<close>

theorem parse_log_by_steps_records:
  "(let out = parse_log_by_steps log_content job_steps job_name
    in length out = length job_steps + 1 \<and>
       ps_type (hd out) = ''setup'' \<and>
       map ps_type (tl out) = replicate (length job_steps) ''action'' \<and>
       tl out = located_records out @ unlocated_records out \<and>
       mset (map record_source (tl out)) = mset (map step_source job_steps))"
proof -
  let ?out = "parse_log_by_steps log_content job_steps job_name"
  let ?ps = "step_patterns log_content job_steps job_name"
  let ?fps = "found_patterns log_content job_steps job_name"
  let ?us = "filter (\<lambda>p. \<not> pi_found p) ?ps"
  let ?lines = "normalize_log log_content"
  have tl: "tl ?out = found_records ?lines ?fps @ map unfound_step_data ?us"
    by (rule tl_parse)
  have "length ?out = Suc (length ?fps + length ?us)"
    by (simp add: parse_shape length_found_records)
  then have 1: "length ?out = length job_steps + 1"
    by (simp add: length_found_unfound)
  have 2: "ps_type (hd ?out) = ''setup''"
    by (simp add: parse_shape setup_type)
  have "\<forall>r\<in>set (tl ?out). ps_type r = ''action''"
    by (auto simp: tl found_records_type unfound_type)
  then have "map ps_type (tl ?out) = replicate (length (tl ?out)) ''action''"
    by (rule map_const_replicate)
  moreover have "length (tl ?out) = length job_steps"
    using 1 by simp
  ultimately have 3: "map ps_type (tl ?out) = replicate (length job_steps) ''action''"
    by simp
  have 4: "tl ?out = located_records ?out @ unlocated_records ?out"
    by (simp only: tl located_of_parse unlocated_of_parse)
  have "mset ?fps = mset (filter pi_found ?ps)"
    by (simp add: found_patterns_def)
  then have "mset ?fps + mset ?us = mset ?ps" by simp
  then have "mset (map pattern_source ?fps) + mset (map pattern_source ?us) =
      mset (map pattern_source ?ps)"
    by (metis image_mset_union mset_map)
  moreover have "map record_source (tl ?out) =
      map pattern_source ?fps @ map pattern_source ?us"
    by (simp add: tl found_records_source unfound_source comp_def)
  ultimately have 5: "mset (map record_source (tl ?out)) = mset (map step_source job_steps)"
    by (simp add: step_patterns_source)
  from 1 2 3 4 5 show ?thesis unfolding Let_def by (intro conjI)
qed

section \<open>Contiguous ranges\<close>

text \<open>
  C3. Take the records of the located steps of any output of \<open>parse_log_by_steps\<close> and
  order them ascending by \<open>start_line\<close>. Then the \<open>end_line\<close> of each record is the
  \<open>start_line\<close> of the next one minus 1, and the \<open>end_line\<close> of the last one is the
  number of log lines minus 1.
\<close>

theorem located_ranges_contiguous:
  assumes "rs = sort_key ps_start_line
                  (located_records (parse_log_by_steps log_content job_steps job_name))"
    and "i < length rs"
  shows "ps_end_line (rs ! i) =
           (if Suc i < length rs then ps_start_line (rs ! Suc i) - 1
            else int (length (normalize_log log_content)) - 1)"
proof -
  let ?fps = "found_patterns log_content job_steps job_name"
  let ?lines = "normalize_log log_content"
  have "rs = located_records (parse_log_by_steps log_content job_steps job_name)"
    by (simp only: assms(1) located_sort_id)
  then have rs: "rs = found_records ?lines ?fps"
    by (simp only: located_of_parse)
  then have len: "length rs = length ?fps" by (simp add: length_found_records)
  have e: "ps_end_line (rs ! i) = end_of ?lines ?fps i"
    using assms(2) len by (simp add: rs found_records_nth found_step_data_def Let_def)
  show ?thesis
  proof (cases "Suc i < length rs")
    case True
    then have "ps_start_line (rs ! Suc i) = pi_start_idx (?fps ! Suc i)"
      using len by (simp add: rs found_records_nth found_step_data_def Let_def)
    with True e len show ?thesis by (simp add: end_of_def)
  next
    case False
    with e len show ?thesis by (simp add: end_of_def)
  qed
qed

theorem located_ranges_contiguous_witness:
  "0 < length (sort_key ps_start_line
                 (located_records (parse_log_by_steps sample_log sample_steps ''build''))) \<and>
   ps_end_line (sort_key ps_start_line
                  (located_records (parse_log_by_steps sample_log sample_steps ''build'')) ! 0) = 3"
proof -
  let ?rs = "sort_key ps_start_line
               (located_records (parse_log_by_steps sample_log sample_steps ''build''))"
  have h: "0 < length ?rs" by code_simp
  have l: "Suc 0 < length ?rs" by code_simp
  have s: "ps_start_line (?rs ! Suc 0) = 4" by code_simp
  have "ps_end_line (?rs ! 0) =
      (if Suc 0 < length ?rs then ps_start_line (?rs ! Suc 0) - 1
       else int (length (normalize_log sample_log)) - 1)"
    using located_ranges_contiguous [OF refl h] .
  then have "ps_end_line (?rs ! 0) = 3" by (simp only: l s if_True)
  with h show ?thesis by (rule conjI)
qed

lemma parse_shape_records:
  "parse_log_by_steps log_content job_steps job_name =
     setup_step (setup_end_idx log_content job_name)
       (snd (scan_setup (setup_end_pattern job_name) 0 (normalize_log log_content)))
     # located_records (parse_log_by_steps log_content job_steps job_name)
     @ unlocated_records (parse_log_by_steps log_content job_steps job_name)"
  by (simp only: located_of_parse unlocated_of_parse) (rule parse_shape)

section \<open>The order of the output\<close>

text \<open>
  C8. In every output of \<open>parse_log_by_steps\<close> the first element is the setup record,
  with \<open>start_line\<close> 0, and no other record has the type \<open>setup\<close>: the others are the
  \<open>N\<close> action records. After the setup record come the records of the located steps,
  in strictly ascending order of the line at which each was discovered, and then the
  records of the steps that were not located, in the order of the pattern list, which is
  the order of the input steps.
\<close>

theorem output_order:
  "(let out = parse_log_by_steps log_content job_steps job_name;
        patterns = step_patterns log_content job_steps job_name
    in out = hd out # located_records out @ unlocated_records out \<and>
       ps_type (hd out) = ''setup'' \<and>
       ps_start_line (hd out) = 0 \<and>
       map ps_type (tl out) = replicate (length job_steps) ''action'' \<and>
       map ps_start_line (located_records out) = sort (found_starts patterns) \<and>
       sorted_wrt (<) (map ps_start_line (located_records out)) \<and>
       unlocated_records out = map unfound_step_data (filter (\<lambda>p. \<not> pi_found p) patterns) \<and>
       map pi_step patterns = job_steps)"
proof -
  let ?out = "parse_log_by_steps log_content job_steps job_name"
  let ?ps = "step_patterns log_content job_steps job_name"
  let ?fps = "found_patterns log_content job_steps job_name"
  let ?first = "setup_step (setup_end_idx log_content job_name)
       (snd (scan_setup (setup_end_pattern job_name) 0 (normalize_log log_content)))"
  have shape: "?out = ?first # located_records ?out @ unlocated_records ?out"
    by (rule parse_shape_records)
  then have hd: "hd ?out = ?first" by (metis list.sel(1))
  have 1: "?out = hd ?out # located_records ?out @ unlocated_records ?out"
    using shape hd by simp
  have 2: "ps_type (hd ?out) = ''setup''" "ps_start_line (hd ?out) = 0"
    by (simp_all add: hd setup_step_def)
  have tl: "tl ?out = located_records ?out @ unlocated_records ?out"
    by (metis shape list.sel(3))
  have "\<forall>r\<in>set (tl ?out). ps_type r = ''action''"
    by (auto simp: tl located_records_def unlocated_records_def)
  then have "map ps_type (tl ?out) = replicate (length (tl ?out)) ''action''"
    by (rule map_const_replicate)
  moreover have "length (tl ?out) = length job_steps"
    using length_found_unfound [of log_content job_steps job_name]
    by (simp add: tl located_of_parse unlocated_of_parse length_found_records)
  ultimately have 3: "map ps_type (tl ?out) = replicate (length job_steps) ''action''"
    by simp
  have 4: "map ps_start_line (located_records ?out) = sort (found_starts ?ps)"
    by (simp only: located_starts found_patterns_starts)
  have 5: "sorted_wrt (<) (map ps_start_line (located_records ?out))"
    by (simp only: located_starts found_patterns_strict)
  have 6: "unlocated_records ?out = map unfound_step_data (filter (\<lambda>p. \<not> pi_found p) ?ps)"
    by (rule unlocated_of_parse)
  have 7: "map pi_step ?ps = job_steps" by (rule step_patterns_step)
  from 1 2 3 4 5 6 7 show ?thesis unfolding Let_def by blast
qed

section \<open>The sentinel line\<close>

text \<open>
  C9. Let the sentinel first occur on the line with index \<open>k\<close>, with \<open>k\<close> at least 1.
  Then the \<open>end_line\<close> of the setup record is \<open>k\<close>, while its \<open>log_content\<close> joins the
  lines 0 to \<open>k - 1\<close> only. The records after the setup record are the located and the
  unlocated ones; a located record starts after line \<open>k\<close> and its \<open>log_content\<close> joins the
  lines from its \<open>start_line\<close> to its \<open>end_line\<close>, and an unlocated record has no
  content. So the line with index \<open>k\<close> belongs to the content of no record.
\<close>

theorem sentinel_line_in_no_record:
  assumes "k < length (normalize_log log_content)"
    and "1 \<le> k"
    and "contains (setup_end_pattern job_name) (normalize_log log_content ! k)"
    and "\<forall>i<k. \<not> contains (setup_end_pattern job_name) (normalize_log log_content ! i)"
  shows "(let out = parse_log_by_steps log_content job_steps job_name;
              log_lines = normalize_log log_content
          in ps_end_line (hd out) = int k \<and>
             ps_log_content (hd out) = join_newline (take k log_lines) \<and>
             tl out = located_records out @ unlocated_records out \<and>
             (\<forall>r\<in>set (located_records out).
                int k < ps_start_line r \<and> ps_start_line r \<le> ps_end_line r \<and>
                ps_end_line r < int (length log_lines) \<and>
                ps_log_content r =
                  join_newline (take (nat (ps_end_line r - ps_start_line r + 1))
                                  (drop (nat (ps_start_line r)) log_lines))) \<and>
             (\<forall>r\<in>set (unlocated_records out). ps_log_content r = []))"
proof -
  let ?out = "parse_log_by_steps log_content job_steps job_name"
  let ?lines = "normalize_log log_content"
  have sc: "scan_setup (setup_end_pattern job_name) 0 ?lines = (0 + k, take k ?lines)"
    using assms(1,3,4) by (rule scan_setup_first)
  then have k: "setup_end_idx log_content job_name = k" by (simp add: setup_end_idx_def)
  have shape: "?out = setup_step k (take k ?lines) # located_records ?out @ unlocated_records ?out"
    using parse_shape_records [of log_content job_steps job_name]
    by (simp only: k sc snd_conv)
  have hd: "hd ?out = setup_step k (take k ?lines)" by (metis shape list.sel(1))
  have tl: "tl ?out = located_records ?out @ unlocated_records ?out" by (metis shape list.sel(3))
  have 1: "ps_end_line (hd ?out) = int k" "ps_log_content (hd ?out) = join_newline (take k ?lines)"
    by (simp_all add: hd setup_step_def)
  have 2: "\<forall>r\<in>set (located_records ?out).
      int k < ps_start_line r \<and> ps_start_line r \<le> ps_end_line r \<and>
      ps_end_line r < int (length ?lines) \<and>
      ps_log_content r =
        join_newline (take (nat (ps_end_line r - ps_start_line r + 1))
                        (drop (nat (ps_start_line r)) ?lines))"
    using located_record_range [of _ log_content job_steps job_name] by (simp only: k) blast
  have 3: "\<forall>r\<in>set (unlocated_records ?out). ps_log_content r = []"
    by (auto simp: unlocated_of_parse unfound_step_data_def Let_def)
  from 1 tl 2 3 show ?thesis unfolding Let_def by blast
qed

theorem sentinel_line_in_no_record_witness:
  "(1::nat) < length (normalize_log sample_log) \<and>
   contains (setup_end_pattern ''build'') (normalize_log sample_log ! 1) \<and>
   ps_end_line (hd (parse_log_by_steps sample_log sample_steps ''build'')) = 1 \<and>
   ps_log_content (hd (parse_log_by_steps sample_log sample_steps ''build'')) =
     join_newline (take 1 (normalize_log sample_log))"
proof -
  have a: "(1::nat) < length (normalize_log sample_log)" by code_simp
  have b: "(1::nat) \<le> 1" by simp
  have c: "contains (setup_end_pattern ''build'') (normalize_log sample_log ! 1)" by code_simp
  have d0: "\<not> contains (setup_end_pattern ''build'') (normalize_log sample_log ! 0)"
    by code_simp
  have d: "\<forall>i<1::nat. \<not> contains (setup_end_pattern ''build'') (normalize_log sample_log ! i)"
    using d0 by simp
  from sentinel_line_in_no_record [OF a b c d, of sample_steps]
  have "ps_end_line (hd (parse_log_by_steps sample_log sample_steps ''build'')) = int 1"
    and "ps_log_content (hd (parse_log_by_steps sample_log sample_steps ''build'')) =
      join_newline (take 1 (normalize_log sample_log))"
    unfolding Let_def by blast+
  with a c show ?thesis by simp
qed

subsection \<open>Patterns that no line carries\<close>

lemma assign_line_nth_unchanged:
  "j < length ps \<Longrightarrow> \<not> re_search_word (pi_pattern (ps ! j)) line \<Longrightarrow>
   assign_line i line ps ! j = ps ! j"
proof (induction ps arbitrary: j)
  case Nil
  then show ?case by simp
next
  case (Cons p ps)
  show ?case
  proof (cases j)
    case 0
    with Cons.prems show ?thesis by simp
  next
    case (Suc j')
    with Cons.prems have "assign_line i line ps ! j' = ps ! j'" by (intro Cons.IH) simp_all
    with Suc show ?thesis by simp
  qed
qed

lemma locate_nth_unchanged:
  "j < length ps \<Longrightarrow> \<forall>l\<in>set ls. \<not> re_search_word (pi_pattern (ps ! j)) l \<Longrightarrow>
   locate i ls ps ! j = ps ! j"
proof (induction ls arbitrary: i ps)
  case Nil
  then show ?case by simp
next
  case (Cons l ls)
  have a: "assign_line i l ps ! j = ps ! j"
    using Cons.prems by (intro assign_line_nth_unchanged) simp_all
  have "locate (Suc i) ls (assign_line i l ps) ! j = assign_line i l ps ! j"
    using Cons.prems a by (intro Cons.IH) (simp_all add: length_assign_line)
  with a show ?case by simp
qed

lemma step_patterns_unmatched:
  assumes "j < length job_steps"
    and "\<forall>l\<in>set (drop (Suc (setup_end_idx log_content job_name)) (normalize_log log_content)).
           \<not> re_search_word (get_step_identifier (job_steps ! j)) l"
  shows "step_patterns log_content job_steps job_name ! j = make_pattern (job_steps ! j)"
proof -
  let ?k = "setup_end_idx log_content job_name"
  let ?ps0 = "map make_pattern job_steps"
  have sp: "step_patterns log_content job_steps job_name =
      locate (Suc ?k) (drop (Suc ?k) (normalize_log log_content)) ?ps0"
    by (simp add: step_patterns_def setup_end_idx_def Let_def)
  have p: "pi_pattern (?ps0 ! j) = get_step_identifier (job_steps ! j)"
    using assms(1) by (simp add: make_pattern_def)
  have "locate (Suc ?k) (drop (Suc ?k) (normalize_log log_content)) ?ps0 ! j = ?ps0 ! j"
    using assms by (intro locate_nth_unchanged) (simp_all only: p length_map)
  with sp assms(1) show ?thesis by simp
qed

section \<open>Steps that are not found\<close>

text \<open>
  C7. Every pattern that the search leaves unfound has its record in the output, with
  \<open>start_line\<close> and \<open>end_line\<close> -1, an empty \<open>log_content\<close> and the note; the output has
  exactly one such record for each unfound pattern, and every record with a note has this
  form. In particular a step whose identifier is carried by no line after the setup
  boundary is left unfound and reported so. The function is total: it has no error value,
  and the search runs once.
\<close>

theorem unfound_step_record:
  "(let out = parse_log_by_steps log_content job_steps job_name;
        patterns = step_patterns log_content job_steps job_name;
        remaining_lines = drop (Suc (setup_end_idx log_content job_name)) (normalize_log log_content)
    in (\<forall>p\<in>set patterns. \<not> pi_found p \<longrightarrow>
          unfound_step_data p \<in> set out \<and>
          ps_start_line (unfound_step_data p) = - 1 \<and>
          ps_end_line (unfound_step_data p) = - 1 \<and>
          ps_log_content (unfound_step_data p) = [] \<and>
          ps_note (unfound_step_data p) = Some ''Step not found in log'' \<and>
          ps_pattern_matched (unfound_step_data p) = Some (pi_pattern p)) \<and>
       (\<forall>r\<in>set out. ps_note r \<noteq> None \<longrightarrow>
          ps_start_line r = - 1 \<and> ps_end_line r = - 1 \<and> ps_log_content r = [] \<and>
          ps_note r = Some ''Step not found in log'') \<and>
       length (filter (\<lambda>r. ps_note r \<noteq> None) out) =
         length (filter (\<lambda>p. \<not> pi_found p) patterns) \<and>
       (\<forall>j<length job_steps.
          (\<forall>l\<in>set remaining_lines. \<not> re_search_word (get_step_identifier (job_steps ! j)) l) \<longrightarrow>
          \<not> pi_found (patterns ! j) \<and> pi_step (patterns ! j) = job_steps ! j \<and>
          pi_pattern (patterns ! j) = get_step_identifier (job_steps ! j)))"
proof -
  let ?out = "parse_log_by_steps log_content job_steps job_name"
  let ?ps = "step_patterns log_content job_steps job_name"
  let ?rem = "drop (Suc (setup_end_idx log_content job_name)) (normalize_log log_content)"
  have un: "unlocated_records ?out = map unfound_step_data (filter (\<lambda>p. \<not> pi_found p) ?ps)"
    by (rule unlocated_of_parse)
  have sub: "set (unlocated_records ?out) \<subseteq> set ?out"
    by (auto simp: unlocated_records_def)
  have 1: "\<forall>p\<in>set ?ps. \<not> pi_found p \<longrightarrow>
          unfound_step_data p \<in> set ?out \<and>
          ps_start_line (unfound_step_data p) = - 1 \<and>
          ps_end_line (unfound_step_data p) = - 1 \<and>
          ps_log_content (unfound_step_data p) = [] \<and>
          ps_note (unfound_step_data p) = Some ''Step not found in log'' \<and>
          ps_pattern_matched (unfound_step_data p) = Some (pi_pattern p)"
  proof (intro ballI impI)
    fix p assume "p \<in> set ?ps" "\<not> pi_found p"
    then have "unfound_step_data p \<in> set (unlocated_records ?out)" by (simp add: un)
    with sub have "unfound_step_data p \<in> set ?out" by blast
    then show "unfound_step_data p \<in> set ?out \<and>
          ps_start_line (unfound_step_data p) = - 1 \<and>
          ps_end_line (unfound_step_data p) = - 1 \<and>
          ps_log_content (unfound_step_data p) = [] \<and>
          ps_note (unfound_step_data p) = Some ''Step not found in log'' \<and>
          ps_pattern_matched (unfound_step_data p) = Some (pi_pattern p)"
      by (simp add: unfound_step_data_def Let_def)
  qed
  have noted: "filter (\<lambda>r. ps_note r \<noteq> None) ?out = unlocated_records ?out"
  proof -
    let ?P = "\<lambda>r. ps_note r \<noteq> None"
    have a: "filter ?P (found_records (normalize_log log_content)
               (found_patterns log_content job_steps job_name)) = []"
      by (rule filter_False) (simp add: found_records_note)
    have b: "filter ?P (map unfound_step_data (filter (\<lambda>p. \<not> pi_found p) ?ps)) =
        map unfound_step_data (filter (\<lambda>p. \<not> pi_found p) ?ps)"
      by (rule filter_True) (auto simp: unfound_note)
    have c: "\<not> ?P (setup_step (setup_end_idx log_content job_name)
        (snd (scan_setup (setup_end_pattern job_name) 0 (normalize_log log_content))))"
      by (simp add: setup_step_def)
    show ?thesis
      unfolding un unfolding parse_shape filter.simps filter_append a b using c by simp
  qed
  have 2: "\<forall>r\<in>set ?out. ps_note r \<noteq> None \<longrightarrow>
          ps_start_line r = - 1 \<and> ps_end_line r = - 1 \<and> ps_log_content r = [] \<and>
          ps_note r = Some ''Step not found in log''"
  proof (intro ballI impI)
    fix r assume "r \<in> set ?out" "ps_note r \<noteq> None"
    then have "r \<in> set (filter (\<lambda>r. ps_note r \<noteq> None) ?out)" by simp
    then have "r \<in> set (map unfound_step_data (filter (\<lambda>p. \<not> pi_found p) ?ps))"
      by (simp only: noted un)
    then obtain p where "r = unfound_step_data p" by auto
    then show "ps_start_line r = - 1 \<and> ps_end_line r = - 1 \<and> ps_log_content r = [] \<and>
          ps_note r = Some ''Step not found in log''"
      by (simp add: unfound_step_data_def Let_def)
  qed
  have 3: "length (filter (\<lambda>r. ps_note r \<noteq> None) ?out) =
      length (filter (\<lambda>p. \<not> pi_found p) ?ps)"
    by (simp only: noted un length_map)
  have 4: "\<forall>j<length job_steps.
          (\<forall>l\<in>set ?rem. \<not> re_search_word (get_step_identifier (job_steps ! j)) l) \<longrightarrow>
          \<not> pi_found (?ps ! j) \<and> pi_step (?ps ! j) = job_steps ! j \<and>
          pi_pattern (?ps ! j) = get_step_identifier (job_steps ! j)"
  proof (intro allI impI)
    fix j assume j: "j < length job_steps"
      and "\<forall>l\<in>set ?rem. \<not> re_search_word (get_step_identifier (job_steps ! j)) l"
    then have "?ps ! j = make_pattern (job_steps ! j)" by (rule step_patterns_unmatched)
    then show "\<not> pi_found (?ps ! j) \<and> pi_step (?ps ! j) = job_steps ! j \<and>
          pi_pattern (?ps ! j) = get_step_identifier (job_steps ! j)"
      by (simp add: make_pattern_def)
  qed
  from 1 2 3 4 show ?thesis unfolding Let_def by blast
qed

theorem unfound_step_record_witness:
  "step_patterns sample_log sample_steps ''build'' ! 1 \<in>
     set (step_patterns sample_log sample_steps ''build'') \<and>
   \<not> pi_found (step_patterns sample_log sample_steps ''build'' ! 1) \<and>
   unfound_step_data (step_patterns sample_log sample_steps ''build'' ! 1) \<in>
     set (parse_log_by_steps sample_log sample_steps ''build'') \<and>
   ps_start_line (unfound_step_data (step_patterns sample_log sample_steps ''build'' ! 1)) = - 1"
proof -
  let ?p = "step_patterns sample_log sample_steps ''build'' ! 1"
  have "length (step_patterns sample_log sample_steps ''build'') = 3"
    by (simp add: length_step_patterns sample_steps_def)
  then have a: "?p \<in> set (step_patterns sample_log sample_steps ''build'')" by simp
  have b: "\<not> pi_found ?p" by code_simp
  from unfound_step_record [of sample_log sample_steps "''build''"] a b
  have "unfound_step_data ?p \<in> set (parse_log_by_steps sample_log sample_steps ''build'') \<and>
      ps_start_line (unfound_step_data ?p) = - 1"
    unfolding Let_def by blast
  with a b show ?thesis by blast
qed

section \<open>The name of a step without a name\<close>

lemma found_records_member:
  "p \<in> set ps \<Longrightarrow> \<exists>e. found_step_data log_lines p e \<in> set (found_records log_lines ps)"
  by (induction ps) (auto simp: Let_def)

text \<open>
  C10. Take a step specification without a \<open>name\<close>. If the step was located, its record
  has the name \<open>Run\<close> and a space followed by the \<open>uses\<close> value, and only \<open>Run\<close> and a
  space when \<open>uses\<close> is absent too; if it was not located, the name of its record is
  \<open>Unnamed Step\<close>.
\<close>

theorem unnamed_step_name:
  "(let out = parse_log_by_steps log_content job_steps job_name;
        patterns = step_patterns log_content job_steps job_name
    in \<forall>p\<in>set patterns. step_name (pi_step p) = None \<longrightarrow>
         (pi_found p \<longrightarrow>
            (\<exists>r\<in>set (located_records out).
               ps_start_line r = pi_start_idx p \<and>
               ps_pattern_matched r = Some (pi_pattern p) \<and>
               ps_uses r = step_uses (pi_step p) \<and> ps_run r = step_run (pi_step p) \<and>
               ps_name r = (case step_uses (pi_step p) of
                              Some u \<Rightarrow> ''Run '' @ u
                            | None \<Rightarrow> ''Run ''))) \<and>
         (\<not> pi_found p \<longrightarrow>
            unfound_step_data p \<in> set (unlocated_records out) \<and>
            ps_uses (unfound_step_data p) = step_uses (pi_step p) \<and>
            ps_run (unfound_step_data p) = step_run (pi_step p) \<and>
            ps_name (unfound_step_data p) = ''Unnamed Step''))"
proof -
  let ?out = "parse_log_by_steps log_content job_steps job_name"
  let ?ps = "step_patterns log_content job_steps job_name"
  let ?lines = "normalize_log log_content"
  have "\<forall>p\<in>set ?ps. step_name (pi_step p) = None \<longrightarrow>
         (pi_found p \<longrightarrow>
            (\<exists>r\<in>set (located_records ?out).
               ps_start_line r = pi_start_idx p \<and>
               ps_pattern_matched r = Some (pi_pattern p) \<and>
               ps_uses r = step_uses (pi_step p) \<and> ps_run r = step_run (pi_step p) \<and>
               ps_name r = (case step_uses (pi_step p) of
                              Some u \<Rightarrow> ''Run '' @ u
                            | None \<Rightarrow> ''Run ''))) \<and>
         (\<not> pi_found p \<longrightarrow>
            unfound_step_data p \<in> set (unlocated_records ?out) \<and>
            ps_uses (unfound_step_data p) = step_uses (pi_step p) \<and>
            ps_run (unfound_step_data p) = step_run (pi_step p) \<and>
            ps_name (unfound_step_data p) = ''Unnamed Step'')"
  proof (intro ballI impI conjI)
    fix p assume p: "p \<in> set ?ps" and n: "step_name (pi_step p) = None" and f: "pi_found p"
    from p f have "p \<in> set (found_patterns log_content job_steps job_name)"
      by (simp add: found_patterns_set)
    from found_records_member [OF this, of ?lines]
    obtain e where e: "found_step_data ?lines p e \<in> set (located_records ?out)"
      by (auto simp: located_of_parse)
    have "ps_start_line (found_step_data ?lines p e) = pi_start_idx p \<and>
        ps_pattern_matched (found_step_data ?lines p e) = Some (pi_pattern p) \<and>
        ps_uses (found_step_data ?lines p e) = step_uses (pi_step p) \<and>
        ps_run (found_step_data ?lines p e) = step_run (pi_step p) \<and>
        ps_name (found_step_data ?lines p e) =
          (case step_uses (pi_step p) of Some u \<Rightarrow> ''Run '' @ u | None \<Rightarrow> ''Run '')"
      using n by (simp add: found_step_data_def Let_def dict_get_def split: option.splits)
    with e show "\<exists>r\<in>set (located_records ?out).
               ps_start_line r = pi_start_idx p \<and>
               ps_pattern_matched r = Some (pi_pattern p) \<and>
               ps_uses r = step_uses (pi_step p) \<and> ps_run r = step_run (pi_step p) \<and>
               ps_name r = (case step_uses (pi_step p) of
                              Some u \<Rightarrow> ''Run '' @ u
                            | None \<Rightarrow> ''Run '')"
      by blast
  next
    fix p assume "p \<in> set ?ps" "\<not> pi_found p"
    then show "unfound_step_data p \<in> set (unlocated_records ?out)"
      by (simp add: unlocated_of_parse)
  next
    fix p :: pattern_info show "ps_uses (unfound_step_data p) = step_uses (pi_step p)"
      by (simp add: unfound_step_data_def Let_def)
  next
    fix p :: pattern_info show "ps_run (unfound_step_data p) = step_run (pi_step p)"
      by (simp add: unfound_step_data_def Let_def)
  next
    fix p :: pattern_info assume "step_name (pi_step p) = None"
    then show "ps_name (unfound_step_data p) = ''Unnamed Step''"
      by (simp add: unfound_step_data_def Let_def dict_get_def)
  qed
  then show ?thesis unfolding Let_def .
qed

theorem unnamed_step_name_witness:
  "step_name (pi_step (step_patterns sample_log sample_steps ''build'' ! 0)) = None \<and>
   pi_found (step_patterns sample_log sample_steps ''build'' ! 0) \<and>
   (\<exists>r\<in>set (located_records (parse_log_by_steps sample_log sample_steps ''build'')).
      ps_start_line r = 4 \<and> ps_name r = ''Run '') \<and>
   step_name (pi_step (step_patterns sample_log sample_steps ''build'' ! 1)) = None \<and>
   \<not> pi_found (step_patterns sample_log sample_steps ''build'' ! 1) \<and>
   ps_name (unfound_step_data (step_patterns sample_log sample_steps ''build'' ! 1)) =
     ''Unnamed Step''"
proof -
  let ?ps = "step_patterns sample_log sample_steps ''build''"
  let ?out = "parse_log_by_steps sample_log sample_steps ''build''"
  have len: "length ?ps = 3" by (simp add: length_step_patterns sample_steps_def)
  then have m0: "?ps ! 0 \<in> set ?ps" and m1: "?ps ! 1 \<in> set ?ps" by simp_all
  have n0: "step_name (pi_step (?ps ! 0)) = None" by code_simp
  have f0: "pi_found (?ps ! 0)" by code_simp
  have s0: "pi_start_idx (?ps ! 0) = 4" by code_simp
  have u0: "step_uses (pi_step (?ps ! 0)) = None" by code_simp
  have n1: "step_name (pi_step (?ps ! 1)) = None" by code_simp
  have f1: "\<not> pi_found (?ps ! 1)" by code_simp
  note inst = unnamed_step_name [of sample_log sample_steps "''build''", unfolded Let_def]
  from inst m0 n0 f0 have "\<exists>r\<in>set (located_records ?out).
      ps_start_line r = pi_start_idx (?ps ! 0) \<and>
      ps_name r = (case step_uses (pi_step (?ps ! 0)) of
                     Some u \<Rightarrow> ''Run '' @ u | None \<Rightarrow> ''Run '')"
    by blast
  then have a: "\<exists>r\<in>set (located_records ?out). ps_start_line r = 4 \<and> ps_name r = ''Run ''"
    by (simp only: s0 u0 option.case)
  from inst m1 n1 f1 have b: "ps_name (unfound_step_data (?ps ! 1)) = ''Unnamed Step''"
    by blast
  from n0 f0 a n1 f1 b show ?thesis by blast
qed

section \<open>A log without the sentinel\<close>

text \<open>
  C2, as the code has it. When no line of the log contains the sentinel, the setup record
  takes the whole normalised log as its \<open>log_content\<close>, with \<open>start_line\<close> and \<open>end_line\<close>
  0, and the search for the steps still runs, over the lines from index 1 on: every step
  whose identifier none of those lines carries is reported as not found.
\<close>

theorem absent_sentinel_setup_absorbs_log:
  assumes "\<forall>l\<in>set (normalize_log log_content). \<not> contains (setup_end_pattern job_name) l"
  shows "(let out = parse_log_by_steps log_content job_steps job_name;
              patterns = step_patterns log_content job_steps job_name;
              log_lines = normalize_log log_content
          in ps_log_content (hd out) = join_newline log_lines \<and>
             ps_log_content (hd out) = sub_marker (sub_ansi log_content) \<and>
             ps_start_line (hd out) = 0 \<and> ps_end_line (hd out) = 0 \<and>
             patterns = locate 1 (drop 1 log_lines) (map make_pattern job_steps) \<and>
             (\<forall>j<length job_steps.
                (\<forall>l\<in>set (drop 1 log_lines).
                   \<not> re_search_word (get_step_identifier (job_steps ! j)) l) \<longrightarrow>
                \<not> pi_found (patterns ! j) \<and> unfound_step_data (patterns ! j) \<in> set out))"
proof -
  let ?out = "parse_log_by_steps log_content job_steps job_name"
  let ?ps = "step_patterns log_content job_steps job_name"
  let ?lines = "normalize_log log_content"
  have sc: "scan_setup (setup_end_pattern job_name) 0 ?lines = (0, ?lines)"
    using assms by (rule scan_setup_absent)
  then have k: "setup_end_idx log_content job_name = 0" by (simp add: setup_end_idx_def)
  have shape: "?out = setup_step 0 ?lines # located_records ?out @ unlocated_records ?out"
    using parse_shape_records [of log_content job_steps job_name]
    by (simp only: k sc snd_conv)
  have hd: "hd ?out = setup_step 0 ?lines" by (metis shape list.sel(1))
  have 1: "ps_log_content (hd ?out) = join_newline ?lines"
    "ps_start_line (hd ?out) = 0" "ps_end_line (hd ?out) = 0"
    by (simp_all add: hd setup_step_def)
  have 2: "ps_log_content (hd ?out) = sub_marker (sub_ansi log_content)"
    by (simp add: 1 normalize_log_def join_split_newline)
  have 3: "?ps = locate 1 (drop 1 ?lines) (map make_pattern job_steps)"
    using k by (simp add: step_patterns_def setup_end_idx_def Let_def)
  have 4: "\<forall>j<length job_steps.
      (\<forall>l\<in>set (drop 1 ?lines). \<not> re_search_word (get_step_identifier (job_steps ! j)) l) \<longrightarrow>
      \<not> pi_found (?ps ! j) \<and> unfound_step_data (?ps ! j) \<in> set ?out"
  proof (intro allI impI)
    fix j assume j: "j < length job_steps"
      and "\<forall>l\<in>set (drop 1 ?lines). \<not> re_search_word (get_step_identifier (job_steps ! j)) l"
    then have "\<forall>l\<in>set (drop (Suc (setup_end_idx log_content job_name)) ?lines).
        \<not> re_search_word (get_step_identifier (job_steps ! j)) l"
      by (simp add: k)
    with j have "?ps ! j = make_pattern (job_steps ! j)" by (rule step_patterns_unmatched)
    then have nf: "\<not> pi_found (?ps ! j)" by (simp add: make_pattern_def)
    have "?ps ! j \<in> set ?ps" using j by (simp add: length_step_patterns)
    with nf have "unfound_step_data (?ps ! j) \<in> set (unlocated_records ?out)"
      by (simp add: unlocated_of_parse)
    then have "unfound_step_data (?ps ! j) \<in> set ?out"
      by (simp add: unlocated_records_def)
    with nf show "\<not> pi_found (?ps ! j) \<and> unfound_step_data (?ps ! j) \<in> set ?out" by simp
  qed
  from 1 2 3 4 show ?thesis unfolding Let_def by blast
qed

theorem absent_sentinel_setup_absorbs_log_witness:
  "list_all (\<lambda>l. \<not> contains (setup_end_pattern ''build'') l)
     (normalize_log (''Prepare runner'' @ newline # ''Run echo hi'' @ newline # ''hello'')) \<and>
   ps_log_content
     (hd (parse_log_by_steps (''Prepare runner'' @ newline # ''Run echo hi'' @ newline # ''hello'')
            [uses_step ''actions/checkout@v4''] ''build'')) =
     sub_marker (sub_ansi (''Prepare runner'' @ newline # ''Run echo hi'' @ newline # ''hello''))"
proof -
  let ?log = "''Prepare runner'' @ newline # ''Run echo hi'' @ newline # ''hello''"
  have a: "list_all (\<lambda>l. \<not> contains (setup_end_pattern ''build'') l) (normalize_log ?log)"
    by code_simp
  then have h: "\<forall>l\<in>set (normalize_log ?log). \<not> contains (setup_end_pattern ''build'') l"
    by (simp only: list_all_iff)
  from absent_sentinel_setup_absorbs_log [OF h, of "[uses_step ''actions/checkout@v4'']"]
  have "ps_log_content (hd (parse_log_by_steps ?log [uses_step ''actions/checkout@v4''] ''build''))
      = sub_marker (sub_ansi ?log)"
    unfolding Let_def by blast
  with a show ?thesis by (rule conjI)
qed

text \<open>
  C2 as the specification words it fails: in a log of three lines without the sentinel the
  step \<open>echo hi\<close> is found on the line with index 1.
\<close>

theorem absent_sentinel_counterexample:
  "filter (contains (setup_end_pattern ''build''))
     (normalize_log (''Prepare runner'' @ newline # ''Run echo hi'' @ newline # ''hello'')) = [] \<and>
   map pi_found
     (step_patterns (''Prepare runner'' @ newline # ''Run echo hi'' @ newline # ''hello'')
        [run_step ''echo hi''] ''build'') = [True] \<and>
   map ps_start_line
     (parse_log_by_steps (''Prepare runner'' @ newline # ''Run echo hi'' @ newline # ''hello'')
        [run_step ''echo hi''] ''build'') = [0, 1] \<and>
   map ps_note
     (parse_log_by_steps (''Prepare runner'' @ newline # ''Run echo hi'' @ newline # ''hello'')
        [run_step ''echo hi''] ''build'') = [None, None]"
proof -
  let ?log = "''Prepare runner'' @ newline # ''Run echo hi'' @ newline # ''hello''"
  have a: "filter (contains (setup_end_pattern ''build'')) (normalize_log ?log) = []"
    by code_simp
  have b: "map pi_found (step_patterns ?log [run_step ''echo hi''] ''build'') = [True]"
    by code_simp
  have c: "map ps_start_line (parse_log_by_steps ?log [run_step ''echo hi''] ''build'') = [0, 1]"
    by code_simp
  have d: "map ps_note (parse_log_by_steps ?log [run_step ''echo hi''] ''build'') = [None, None]"
    by code_simp
  from a b c d show ?thesis by (intro conjI)
qed

section \<open>The search, line by line\<close>

lemma assign_line_cases:
  "((\<forall>j<length ps. pi_found (ps ! j) \<or> \<not> re_search_word (pi_pattern (ps ! j)) line) \<and>
    assign_line i line ps = ps) \<or>
   (\<exists>j0<length ps.
      \<not> pi_found (ps ! j0) \<and> re_search_word (pi_pattern (ps ! j0)) line \<and>
      (\<forall>j<j0. pi_found (ps ! j) \<or> \<not> re_search_word (pi_pattern (ps ! j)) line) \<and>
      assign_line i line ps = ps[j0 := (ps ! j0)\<lparr>pi_found := True, pi_start_idx := int i\<rparr>])"
proof (induction ps)
  case Nil
  show ?case by simp
next
  case (Cons p ps)
  show ?case
  proof (cases "\<not> pi_found p \<and> re_search_word (pi_pattern p) line")
    case True
    then have "0 < length (p # ps) \<and>
      \<not> pi_found ((p # ps) ! 0) \<and> re_search_word (pi_pattern ((p # ps) ! 0)) line \<and>
      (\<forall>j<0. pi_found ((p # ps) ! j) \<or> \<not> re_search_word (pi_pattern ((p # ps) ! j)) line) \<and>
      assign_line i line (p # ps) =
        (p # ps)[0 := ((p # ps) ! 0)\<lparr>pi_found := True, pi_start_idx := int i\<rparr>]"
      by simp
    then show ?thesis by blast
  next
    case False
    then have step: "assign_line i line (p # ps) = p # assign_line i line ps" by auto
    from Cons.IH show ?thesis
    proof (elim disjE conjE exE)
      assume a: "\<forall>j<length ps. pi_found (ps ! j) \<or> \<not> re_search_word (pi_pattern (ps ! j)) line"
        and b: "assign_line i line ps = ps"
      have "\<forall>j<length (p # ps).
          pi_found ((p # ps) ! j) \<or> \<not> re_search_word (pi_pattern ((p # ps) ! j)) line"
      proof (intro allI impI)
        fix j assume "j < length (p # ps)"
        with a False show
          "pi_found ((p # ps) ! j) \<or> \<not> re_search_word (pi_pattern ((p # ps) ! j)) line"
          by (cases j) auto
      qed
      with step b show ?thesis by simp
    next
      fix j0
      assume j0: "j0 < length ps"
        and c: "\<not> pi_found (ps ! j0)" "re_search_word (pi_pattern (ps ! j0)) line"
        and d: "\<forall>j<j0. pi_found (ps ! j) \<or> \<not> re_search_word (pi_pattern (ps ! j)) line"
        and e: "assign_line i line ps =
          ps[j0 := (ps ! j0)\<lparr>pi_found := True, pi_start_idx := int i\<rparr>]"
      have d': "\<forall>j<Suc j0.
          pi_found ((p # ps) ! j) \<or> \<not> re_search_word (pi_pattern ((p # ps) ! j)) line"
      proof (intro allI impI)
        fix j assume "j < Suc j0"
        with d False show
          "pi_found ((p # ps) ! j) \<or> \<not> re_search_word (pi_pattern ((p # ps) ! j)) line"
          by (cases j) auto
      qed
      have "Suc j0 < length (p # ps) \<and>
        \<not> pi_found ((p # ps) ! Suc j0) \<and>
        re_search_word (pi_pattern ((p # ps) ! Suc j0)) line \<and>
        (\<forall>j<Suc j0.
          pi_found ((p # ps) ! j) \<or> \<not> re_search_word (pi_pattern ((p # ps) ! j)) line) \<and>
        assign_line i line (p # ps) =
          (p # ps)[Suc j0 := ((p # ps) ! Suc j0)\<lparr>pi_found := True, pi_start_idx := int i\<rparr>]"
        using j0 c d' step e by simp
      then show ?thesis by blast
    qed
  qed
qed

lemma locate_as_fold:
  "locate i ls ps = fold (\<lambda>(n, line). assign_line n line) (zip [i ..< i + length ls] ls) ps"
proof (induction ls arbitrary: i ps)
  case Nil
  show ?case by simp
next
  case (Cons l ls)
  have e: "i + length (l # ls) = Suc i + length ls" by simp
  have "[i ..< Suc i + length ls] = i # [Suc i ..< Suc i + length ls]"
    by (rule upt_conv_Cons) simp
  then have z: "zip [i ..< i + length (l # ls)] (l # ls) =
      (i, l) # zip [Suc i ..< Suc i + length ls] ls"
    by (simp only: e zip_Cons_Cons)
  show ?case
    by (simp only: z fold_Cons comp_def case_prod_conv locate.simps Cons.IH)
qed
lemma found_ok_mono: "found_ok ls k m ps j \<Longrightarrow> m \<le> m' \<Longrightarrow> found_ok ls k m' ps j"
  unfolding found_ok_def by (elim exE conjE, rule_tac x = i in exI) simp

lemma unfound_ok_next:
  "unfound_ok ls k m ps j \<Longrightarrow> \<not> re_search_word (pi_pattern (ps ! j)) (ls ! m) \<Longrightarrow>
   unfound_ok ls k (Suc m) ps j"
  unfolding unfound_ok_def by (auto simp: less_Suc_eq)

lemma locator_inv_same:
  assumes inv: "locator_inv ls k m ps"
    and none: "\<forall>j<length ps. pi_found (ps ! j) \<or> \<not> re_search_word (pi_pattern (ps ! j)) (ls ! m)"
  shows "locator_inv ls k (Suc m) ps"
  unfolding locator_inv_def
proof (intro allI impI conjI)
  fix j assume j: "j < length ps" and f: "pi_found (ps ! j)"
  with inv have "found_ok ls k m ps j" by (simp add: locator_inv_def)
  then show "found_ok ls k (Suc m) ps j" by (rule found_ok_mono) simp
next
  fix j assume j: "j < length ps" and f: "\<not> pi_found (ps ! j)"
  with inv have u: "unfound_ok ls k m ps j" by (simp add: locator_inv_def)
  from none j f have "\<not> re_search_word (pi_pattern (ps ! j)) (ls ! m)" by blast
  with u show "unfound_ok ls k (Suc m) ps j" by (rule unfound_ok_next)
qed

lemma locator_inv_hit:
  assumes inv: "locator_inv ls k m ps" and km: "k < m"
    and j0: "j0 < length ps"
    and nf0: "\<not> pi_found (ps ! j0)"
    and m0: "re_search_word (pi_pattern (ps ! j0)) (ls ! m)"
    and first: "\<forall>j<j0. pi_found (ps ! j) \<or> \<not> re_search_word (pi_pattern (ps ! j)) (ls ! m)"
  shows "locator_inv ls k (Suc m)
           (ps[j0 := (ps ! j0)\<lparr>pi_found := True, pi_start_idx := int m\<rparr>])"
proof -
  let ?qs = "ps[j0 := (ps ! j0)\<lparr>pi_found := True, pi_start_idx := int m\<rparr>]"
  have len: "length ?qs = length ps" by simp
  have q0: "pi_found (?qs ! j0)" "pi_start_idx (?qs ! j0) = int m"
    using j0 by simp_all
  have other: "\<And>j. j \<noteq> j0 \<Longrightarrow> ?qs ! j = ps ! j" by simp
  have pat: "\<And>j. j < length ps \<Longrightarrow> pi_pattern (?qs ! j) = pi_pattern (ps ! j)"
  proof -
    fix j assume "j < length ps"
    then show "pi_pattern (?qs ! j) = pi_pattern (ps ! j)" by (cases "j = j0") simp_all
  qed
  have keep: "\<And>j. j < length ps \<Longrightarrow> pi_found (ps ! j) \<Longrightarrow>
      pi_found (?qs ! j) \<and> pi_start_idx (?qs ! j) = pi_start_idx (ps ! j)"
  proof -
    fix j assume "j < length ps" "pi_found (ps ! j)"
    with nf0 have "j \<noteq> j0" by auto
    with \<open>pi_found (ps ! j)\<close> show
      "pi_found (?qs ! j) \<and> pi_start_idx (?qs ! j) = pi_start_idx (ps ! j)"
      by simp
  qed
  have fo: "\<And>j. j < length ps \<Longrightarrow> pi_found (ps ! j) \<Longrightarrow> found_ok ls k m ps j"
    using inv by (simp add: locator_inv_def)
  have uo: "\<And>j. j < length ps \<Longrightarrow> \<not> pi_found (ps ! j) \<Longrightarrow> unfound_ok ls k m ps j"
    using inv by (simp add: locator_inv_def)
  have earlier: "\<And>j i'. j < length ps \<Longrightarrow>
      \<exists>j'<j. pi_found (ps ! j') \<and> pi_start_idx (ps ! j') = int i' \<Longrightarrow>
      \<exists>j'<j. pi_found (?qs ! j') \<and> pi_start_idx (?qs ! j') = int i'"
  proof -
    fix j i' assume j: "j < length ps"
      and "\<exists>j'<j. pi_found (ps ! j') \<and> pi_start_idx (ps ! j') = int i'"
    then obtain j' where j': "j' < j" "pi_found (ps ! j')" "pi_start_idx (ps ! j') = int i'"
      by blast
    with j have "j' < length ps" by simp
    from keep [OF this j'(2)] j' show
      "\<exists>j'<j. pi_found (?qs ! j') \<and> pi_start_idx (?qs ! j') = int i'"
      by auto
  qed
  show ?thesis
    unfolding locator_inv_def len
  proof (intro allI impI conjI)
    fix j assume j: "j < length ps" and f: "pi_found (?qs ! j)"
    show "found_ok ls k (Suc m) ?qs j"
    proof (cases "j = j0")
      case True
      have a: "\<forall>j'<j0. re_search_word (pi_pattern (?qs ! j')) (ls ! m) \<longrightarrow>
          pi_found (?qs ! j') \<and> pi_start_idx (?qs ! j') < int m"
      proof (intro allI impI)
        fix j' assume j': "j' < j0" and "re_search_word (pi_pattern (?qs ! j')) (ls ! m)"
        with j0 have l: "j' < length ps"
          and ma: "re_search_word (pi_pattern (ps ! j')) (ls ! m)" by (simp_all add: pat)
        from first j' ma have fj: "pi_found (ps ! j')" by blast
        from fo [OF l fj] have "pi_start_idx (ps ! j') < int m"
          by (auto simp: found_ok_def)
        with keep [OF l fj] show "pi_found (?qs ! j') \<and> pi_start_idx (?qs ! j') < int m"
          by simp
      qed
      have b: "\<forall>i'. k < i' \<and> i' < m \<and> re_search_word (pi_pattern (?qs ! j0)) (ls ! i') \<longrightarrow>
          (\<exists>j'<j0. pi_found (?qs ! j') \<and> pi_start_idx (?qs ! j') = int i')"
      proof (intro allI impI)
        fix i' assume "k < i' \<and> i' < m \<and> re_search_word (pi_pattern (?qs ! j0)) (ls ! i')"
        then have "k < i'" "i' < m" "re_search_word (pi_pattern (ps ! j0)) (ls ! i')"
          using j0 by (simp_all add: pat)
        with uo [OF j0 nf0]
        have "\<exists>j'<j0. pi_found (ps ! j') \<and> pi_start_idx (ps ! j') = int i'"
          by (simp add: unfound_ok_def)
        then show "\<exists>j'<j0. pi_found (?qs ! j') \<and> pi_start_idx (?qs ! j') = int i'"
          by (rule earlier [OF j0])
      qed
      have c: "re_search_word (pi_pattern (?qs ! j0)) (ls ! m)"
        using m0 j0 by (simp add: pat)
      show ?thesis
        unfolding True found_ok_def
        using q0(2) km c a b by (intro exI [of _ m]) simp
    next
      case False
      with f have fj: "pi_found (ps ! j)" by simp
      from fo [OF j fj] obtain i where i: "pi_start_idx (ps ! j) = int i" "k < i" "i < m"
        "re_search_word (pi_pattern (ps ! j)) (ls ! i)"
        and a: "\<forall>j'<j. re_search_word (pi_pattern (ps ! j')) (ls ! i) \<longrightarrow>
                  pi_found (ps ! j') \<and> pi_start_idx (ps ! j') < int i"
        and b: "\<forall>i'. k < i' \<and> i' < i \<and> re_search_word (pi_pattern (ps ! j)) (ls ! i') \<longrightarrow>
                (\<exists>j'<j. pi_found (ps ! j') \<and> pi_start_idx (ps ! j') = int i')"
        unfolding found_ok_def by blast
      have a': "\<forall>j'<j. re_search_word (pi_pattern (?qs ! j')) (ls ! i) \<longrightarrow>
                  pi_found (?qs ! j') \<and> pi_start_idx (?qs ! j') < int i"
      proof (intro allI impI)
        fix j' assume j': "j' < j" and "re_search_word (pi_pattern (?qs ! j')) (ls ! i)"
        with j have l: "j' < length ps"
          and "re_search_word (pi_pattern (ps ! j')) (ls ! i)" by (simp_all add: pat)
        with a j' have "pi_found (ps ! j')" "pi_start_idx (ps ! j') < int i" by blast+
        with keep [OF l] show "pi_found (?qs ! j') \<and> pi_start_idx (?qs ! j') < int i" by simp
      qed
      have b': "\<forall>i'. k < i' \<and> i' < i \<and> re_search_word (pi_pattern (?qs ! j)) (ls ! i') \<longrightarrow>
                (\<exists>j'<j. pi_found (?qs ! j') \<and> pi_start_idx (?qs ! j') = int i')"
      proof (intro allI impI)
        fix i' assume "k < i' \<and> i' < i \<and> re_search_word (pi_pattern (?qs ! j)) (ls ! i')"
        then have "k < i' \<and> i' < i \<and> re_search_word (pi_pattern (ps ! j)) (ls ! i')"
          using j by (simp add: pat)
        with b have "\<exists>j'<j. pi_found (ps ! j') \<and> pi_start_idx (ps ! j') = int i'" by blast
        then show "\<exists>j'<j. pi_found (?qs ! j') \<and> pi_start_idx (?qs ! j') = int i'"
          by (rule earlier [OF j])
      qed
      have s: "pi_start_idx (?qs ! j) = int i" using False i(1) by simp
      have c: "re_search_word (pi_pattern (?qs ! j)) (ls ! i)" using i(4) j by (simp add: pat)
      show ?thesis
        unfolding found_ok_def
        using s i(2,3) c a' b' by (intro exI [of _ i]) simp
    qed
  next
    fix j assume j: "j < length ps" and nf: "\<not> pi_found (?qs ! j)"
    from nf q0(1) have ne: "j \<noteq> j0" by auto
    with nf have nfj: "\<not> pi_found (ps ! j)" by simp
    from uo [OF j nfj] have s: "pi_start_idx (ps ! j) = - 1"
      and b: "\<forall>i'. k < i' \<and> i' < m \<and> re_search_word (pi_pattern (ps ! j)) (ls ! i') \<longrightarrow>
            (\<exists>j'<j. pi_found (ps ! j') \<and> pi_start_idx (ps ! j') = int i')"
      by (simp_all add: unfound_ok_def)
    have b': "\<forall>i'. k < i' \<and> i' < Suc m \<and> re_search_word (pi_pattern (?qs ! j)) (ls ! i') \<longrightarrow>
            (\<exists>j'<j. pi_found (?qs ! j') \<and> pi_start_idx (?qs ! j') = int i')"
    proof (intro allI impI)
      fix i' assume "k < i' \<and> i' < Suc m \<and> re_search_word (pi_pattern (?qs ! j)) (ls ! i')"
      then have i': "k < i'" "i' < Suc m" and ma: "re_search_word (pi_pattern (ps ! j)) (ls ! i')"
        using j by (simp_all add: pat)
      show "\<exists>j'<j. pi_found (?qs ! j') \<and> pi_start_idx (?qs ! j') = int i'"
      proof (cases "i' = m")
        case True
        from first nfj ma True have "\<not> j < j0" by blast
        with ne have "j0 < j" by simp
        with q0 True show ?thesis by blast
      next
        case False
        with i' have "i' < m" by simp
        with b i'(1) ma have "\<exists>j'<j. pi_found (ps ! j') \<and> pi_start_idx (ps ! j') = int i'"
          by blast
        then show ?thesis by (rule earlier [OF j])
      qed
    qed
    have "pi_start_idx (?qs ! j) = - 1" using ne s by simp
    with b' show "unfound_ok ls k (Suc m) ?qs j" unfolding unfound_ok_def by simp
  qed
qed

lemma locator_inv_step:
  assumes "locator_inv ls k m ps" and "k < m"
  shows "locator_inv ls k (Suc m) (assign_line m (ls ! m) ps)"
  using assign_line_cases [of ps "ls ! m" m]
proof (elim disjE conjE exE)
  assume "\<forall>j<length ps. pi_found (ps ! j) \<or> \<not> re_search_word (pi_pattern (ps ! j)) (ls ! m)"
    and e: "assign_line m (ls ! m) ps = ps"
  with assms(1) have "locator_inv ls k (Suc m) ps" by (intro locator_inv_same)
  with e show ?thesis by simp
next
  fix j0
  assume "j0 < length ps" "\<not> pi_found (ps ! j0)"
    "re_search_word (pi_pattern (ps ! j0)) (ls ! m)"
    "\<forall>j<j0. pi_found (ps ! j) \<or> \<not> re_search_word (pi_pattern (ps ! j)) (ls ! m)"
    and e: "assign_line m (ls ! m) ps =
      ps[j0 := (ps ! j0)\<lparr>pi_found := True, pi_start_idx := int m\<rparr>]"
  with assms have "locator_inv ls k (Suc m)
      (ps[j0 := (ps ! j0)\<lparr>pi_found := True, pi_start_idx := int m\<rparr>])"
    by (intro locator_inv_hit)
  with e show ?thesis by simp
qed

lemma locator_inv_locate:
  "locator_inv ls k m ps \<Longrightarrow> k < m \<Longrightarrow> m \<le> length ls \<Longrightarrow>
   locator_inv ls k (length ls) (locate m (drop m ls) ps)"
proof (induction "length ls - m" arbitrary: m ps)
  case 0
  then show ?case by simp
next
  case (Suc d)
  then have lt: "m < length ls" by simp
  then have dr: "drop m ls = ls ! m # drop (Suc m) ls" by (rule Cons_nth_drop_Suc [symmetric])
  have st: "locator_inv ls k (Suc m) (assign_line m (ls ! m) ps)"
    using Suc.prems(1,2) by (rule locator_inv_step)
  have "locator_inv ls k (length ls)
      (locate (Suc m) (drop (Suc m) ls) (assign_line m (ls ! m) ps))"
    using Suc.hyps(2) lt Suc.prems(2) by (intro Suc.hyps(1) st) simp_all
  then show ?case by (simp add: dr)
qed

lemma locator_inv_initial: "locator_inv ls k (Suc k) (map make_pattern sts)"
  by (simp add: locator_inv_def unfound_ok_def make_pattern_def)

lemma locator_inv_step_patterns:
  "locator_inv (normalize_log log_content) (setup_end_idx log_content job_name)
     (length (normalize_log log_content)) (step_patterns log_content job_steps job_name)"
proof -
  let ?ls = "normalize_log log_content"
  let ?k = "setup_end_idx log_content job_name"
  have sp: "step_patterns log_content job_steps job_name =
      locate (Suc ?k) (drop (Suc ?k) ?ls) (map make_pattern job_steps)"
    by (simp add: step_patterns_def setup_end_idx_def Let_def)
  have "Suc ?k \<le> length ?ls" using setup_end_idx_bound [of log_content job_name] by simp
  with locator_inv_initial [of ?ls ?k job_steps] show ?thesis
    unfolding sp by (intro locator_inv_locate) simp_all
qed
lemma locator_inv_distinct:
  assumes inv: "locator_inv ls k m ps"
    and j: "j < length ps" "pi_found (ps ! j)"
    and j': "j' < length ps" "pi_found (ps ! j')"
    and eq: "pi_start_idx (ps ! j) = pi_start_idx (ps ! j')"
  shows "j = j'"
proof -
  have no: "\<And>a b. a < b \<Longrightarrow> b < length ps \<Longrightarrow> pi_found (ps ! a) \<Longrightarrow> pi_found (ps ! b) \<Longrightarrow>
      pi_start_idx (ps ! a) \<noteq> pi_start_idx (ps ! b)"
  proof
    fix a b assume ab: "a < b" and b: "b < length ps"
      and fa: "pi_found (ps ! a)" and fb: "pi_found (ps ! b)"
      and e: "pi_start_idx (ps ! a) = pi_start_idx (ps ! b)"
    from ab b have a: "a < length ps" by simp
    from inv a fa have "found_ok ls k m ps a" by (simp add: locator_inv_def)
    then obtain i where i: "pi_start_idx (ps ! a) = int i"
      "re_search_word (pi_pattern (ps ! a)) (ls ! i)"
      unfolding found_ok_def by blast
    from inv b fb have "found_ok ls k m ps b" by (simp add: locator_inv_def)
    then obtain i2 where i2: "pi_start_idx (ps ! b) = int i2"
      "\<forall>j'<b. re_search_word (pi_pattern (ps ! j')) (ls ! i2) \<longrightarrow>
               pi_found (ps ! j') \<and> pi_start_idx (ps ! j') < int i2"
      unfolding found_ok_def by blast
    from e i(1) i2(1) have "i2 = i" by simp
    with i2(2) ab i(2) have "pi_start_idx (ps ! a) < int i" by blast
    with i(1) show False by simp
  qed
  show ?thesis
  proof (rule ccontr)
    assume "j \<noteq> j'"
    then consider "j < j'" | "j' < j" by (rule linorder_neqE_nat) blast+
    then show False
    proof cases
      case 1
      from no [OF 1 j'(1) j(2) j'(2)] eq show False by simp
    next
      case 2
      from no [OF 2 j(1) j'(2) j(2)] eq show False by simp
    qed
  qed
qed

section \<open>The single pass of the locator\<close>

text \<open>
  C6. The pattern list at the end of the search is the result of one pass over the lines
  after the setup boundary, in order, each line with its absolute index, starting from
  the patterns of the input steps, all unfound. In that result no two found patterns
  carry the same line. A found pattern carries the index of a line after the boundary that
  matches its identifier; every earlier pattern of the list matching that line was already
  found on a line before it, so the pattern was the first one still unfound that the line
  matches; and every line between the boundary and that line matching the identifier went
  to an earlier pattern. A pattern that is not found has the start index -1, and every
  line after the boundary matching its identifier went to an earlier pattern; so a pattern
  that no line matches is not found.
\<close>

theorem locator_single_pass:
  "(let log_lines = normalize_log log_content;
        k = setup_end_idx log_content job_name;
        patterns = step_patterns log_content job_steps job_name
    in patterns =
         fold (\<lambda>(i, line). assign_line i line)
           (zip [Suc k ..< length log_lines] (drop (Suc k) log_lines))
           (map make_pattern job_steps) \<and>
       map pi_pattern patterns = map get_step_identifier job_steps \<and>
       (\<forall>j<length patterns. \<forall>j'<length patterns.
          pi_found (patterns ! j) \<and> pi_found (patterns ! j') \<and>
          pi_start_idx (patterns ! j) = pi_start_idx (patterns ! j') \<longrightarrow> j = j') \<and>
       (\<forall>j<length patterns. pi_found (patterns ! j) \<longrightarrow>
          (\<exists>i. pi_start_idx (patterns ! j) = int i \<and> k < i \<and> i < length log_lines \<and>
               re_search_word (pi_pattern (patterns ! j)) (log_lines ! i) \<and>
               (\<forall>j'<j. re_search_word (pi_pattern (patterns ! j')) (log_lines ! i) \<longrightarrow>
                       pi_found (patterns ! j') \<and> pi_start_idx (patterns ! j') < int i) \<and>
               (\<forall>i'. k < i' \<and> i' < i \<and>
                     re_search_word (pi_pattern (patterns ! j)) (log_lines ! i') \<longrightarrow>
                     (\<exists>j'<j. pi_found (patterns ! j') \<and>
                             pi_start_idx (patterns ! j') = int i')))) \<and>
       (\<forall>j<length patterns. \<not> pi_found (patterns ! j) \<longrightarrow>
          pi_start_idx (patterns ! j) = - 1 \<and>
          (\<forall>i'. k < i' \<and> i' < length log_lines \<and>
                re_search_word (pi_pattern (patterns ! j)) (log_lines ! i') \<longrightarrow>
                (\<exists>j'<j. pi_found (patterns ! j') \<and>
                        pi_start_idx (patterns ! j') = int i'))))"
proof -
  let ?ls = "normalize_log log_content"
  let ?k = "setup_end_idx log_content job_name"
  let ?ps = "step_patterns log_content job_steps job_name"
  have inv: "locator_inv ?ls ?k (length ?ls) ?ps" by (rule locator_inv_step_patterns)
  have sp: "?ps = locate (Suc ?k) (drop (Suc ?k) ?ls) (map make_pattern job_steps)"
    by (simp add: step_patterns_def setup_end_idx_def Let_def)
  have "Suc ?k + length (drop (Suc ?k) ?ls) = length ?ls"
    using setup_end_idx_bound [of log_content job_name] by simp
  with locate_as_fold [of "Suc ?k" "drop (Suc ?k) ?ls" "map make_pattern job_steps"]
  have 1: "?ps = fold (\<lambda>(i, line). assign_line i line)
      (zip [Suc ?k ..< length ?ls] (drop (Suc ?k) ?ls)) (map make_pattern job_steps)"
    by (simp only: sp)
  have 2: "map pi_pattern ?ps = map get_step_identifier job_steps"
    by (rule step_patterns_pattern)
  have 3: "\<forall>j<length ?ps. \<forall>j'<length ?ps.
      pi_found (?ps ! j) \<and> pi_found (?ps ! j') \<and>
      pi_start_idx (?ps ! j) = pi_start_idx (?ps ! j') \<longrightarrow> j = j'"
    using locator_inv_distinct [OF inv] by blast
  have 4: "\<forall>j<length ?ps. pi_found (?ps ! j) \<longrightarrow> found_ok ?ls ?k (length ?ls) ?ps j"
    using inv by (simp add: locator_inv_def)
  have 5: "\<forall>j<length ?ps. \<not> pi_found (?ps ! j) \<longrightarrow> unfound_ok ?ls ?k (length ?ls) ?ps j"
    using inv by (simp add: locator_inv_def)
  from 1 2 3 4 [unfolded found_ok_def] 5 [unfolded unfound_ok_def]
  show ?thesis unfolding Let_def by (intro conjI)
qed

theorem locator_single_pass_witness:
  "0 < length (step_patterns sample_log sample_steps ''build'') \<and>
   pi_found (step_patterns sample_log sample_steps ''build'' ! 0) \<and>
   (\<exists>i. pi_start_idx (step_patterns sample_log sample_steps ''build'' ! 0) = int i \<and>
        setup_end_idx sample_log ''build'' < i \<and>
        re_search_word (pi_pattern (step_patterns sample_log sample_steps ''build'' ! 0))
          (normalize_log sample_log ! i)) \<and>
   Suc 0 < length (step_patterns sample_log sample_steps ''build'') \<and>
   \<not> pi_found (step_patterns sample_log sample_steps ''build'' ! Suc 0) \<and>
   pi_start_idx (step_patterns sample_log sample_steps ''build'' ! Suc 0) = - 1"
proof -
  let ?ps = "step_patterns sample_log sample_steps ''build''"
  have len: "length ?ps = 3" by (simp add: length_step_patterns sample_steps_def)
  then have l0: "0 < length ?ps" and l1: "Suc 0 < length ?ps" by simp_all
  have f0: "pi_found (?ps ! 0)" by code_simp
  have f1: "\<not> pi_found (?ps ! Suc 0)" by code_simp
  note inst = locator_single_pass [of sample_log "''build''" sample_steps, unfolded Let_def]
  from inst l0 f0 have a: "\<exists>i. pi_start_idx (?ps ! 0) = int i \<and>
        setup_end_idx sample_log ''build'' < i \<and>
        re_search_word (pi_pattern (?ps ! 0)) (normalize_log sample_log ! i)"
    by blast
  from inst l1 f1 have b: "pi_start_idx (?ps ! Suc 0) = - 1" by blast
  from l0 f0 a l1 f1 b show ?thesis by (intro conjI)
qed

end
